theory Spec2Isabelle
  imports Main "HOL-Library.Word" "HOL-Library.AList"
begin

unbundle bit_operations_syntax

section \<open>Common data\<close>

text \<open>
  The decoder of \<^verbatim>\<open>gif_decode.cpp\<close> is one long \<^verbatim>\<open>main\<close>. Its pieces are embedded here as
  functions over explicit state. Every way the C++ leaves the normal path is a value of
  \<open>error\<close>: an unchecked \<^verbatim>\<open>operator[]\<close> outside its container (undefined behaviour in C++),
  a failed \<^verbatim>\<open>assert\<close>, and the two exceptions that \<^verbatim>\<open>std::string::substr\<close> and \<^verbatim>\<open>std::stoi\<close>
  throw (nothing catches them, so the program terminates).

  The source keeps its positions and counts (\<^verbatim>\<open>idx\<close>, \<^verbatim>\<open>pos\<close>, \<^verbatim>\<open>table_index\<close>, the codes) in
  \<^verbatim>\<open>int\<close>s. They are natural numbers here, which is the same as long as the file has fewer
  than \<^verbatim>\<open>2^31\<close> bytes and an image fewer than \<^verbatim>\<open>2^31\<close> bits of data. Where 16-bit fields of
  a small file can take a product out of the range of \<^verbatim>\<open>int\<close> (pixel offsets, index
  positions), the conversion or the overflow is written out.
\<close>

datatype error = UndefinedBehaviour | AssertionFailed | OutOfRange | InvalidArgument

type_synonym byte = "8 word"

section \<open>Bit stream assembly and code extraction\<close>

text \<open>\<^verbatim>\<open>std::bitset<8>(b).to_string()\<close>: eight characters, most significant bit first.\<close>

definition bitset8_to_string :: "byte \<Rightarrow> string" where
  "bitset8_to_string b = map (\<lambda>i. if bit b i then CHR ''1'' else CHR ''0'') (rev [0..<8])"

text \<open>
  The loop \<^verbatim>\<open>stream = std::bitset<8>(bytes[idx++]).to_string() + stream\<close> over the data bytes of
  an image, in the order they are read: every byte is put in front of what is there.
\<close>

fun assemble_stream :: "byte list \<Rightarrow> string \<Rightarrow> string" where
  "assemble_stream [] stream = stream"
| "assemble_stream (b # bs) stream = assemble_stream bs (bitset8_to_string b @ stream)"

definition bin_digit :: "char \<Rightarrow> nat" where
  "bin_digit c = (if c = CHR ''1'' then 1 else 0)"

text \<open>
  \<^verbatim>\<open>std::stoi(s, nullptr, 2)\<close> on a string of binary digits: \<^verbatim>\<open>std::invalid_argument\<close> on the
  empty string, \<^verbatim>\<open>std::out_of_range\<close> when the value does not fit an \<^verbatim>\<open>int\<close>.
\<close>

definition stoi2 :: "string \<Rightarrow> error + nat" where
  "stoi2 s =
     (if s = [] then Inl InvalidArgument
      else let v = foldl (\<lambda>acc c. 2 * acc + bin_digit c) 0 s
           in if 2147483647 < int v then Inl OutOfRange else Inr v)"

text \<open>
  \<^verbatim>\<open>fetch_code\<close>: \<^verbatim>\<open>pos -= code_size; return stoi(stream.substr(pos, code_size), nullptr, 2)\<close>.
  \<^verbatim>\<open>pos\<close> is an \<^verbatim>\<open>int\<close>; once it is negative its conversion to \<^verbatim>\<open>size_t\<close> lies beyond the
  string and \<^verbatim>\<open>substr\<close> throws \<^verbatim>\<open>std::out_of_range\<close>, as it does for any start beyond the
  length. The result carries the updated \<^verbatim>\<open>pos\<close> (a reference parameter in the source).
\<close>

definition fetch_code :: "string \<Rightarrow> nat \<Rightarrow> nat \<Rightarrow> error + (nat \<times> nat)" where
  "fetch_code stream pos code_size =
     (if pos < code_size \<or> length stream < pos - code_size then Inl OutOfRange
      else case stoi2 (take code_size (drop (pos - code_size) stream)) of
             Inl e \<Rightarrow> Inl e
           | Inr c \<Rightarrow> Inr (c, pos - code_size))"

text \<open>Successive calls of \<^verbatim>\<open>fetch_code\<close> on one stream, \<^verbatim>\<open>pos\<close> threaded through, one per width.\<close>

fun fetch_codes :: "string \<Rightarrow> nat \<Rightarrow> nat list \<Rightarrow> error + (nat list \<times> nat)" where
  "fetch_codes stream pos [] = Inr ([], pos)"
| "fetch_codes stream pos (w # ws) =
     (case fetch_code stream pos w of
        Inl e \<Rightarrow> Inl e
      | Inr (c, pos') \<Rightarrow>
          (case fetch_codes stream pos' ws of
             Inl e \<Rightarrow> Inl e
           | Inr (cs, p) \<Rightarrow> Inr (c # cs, p)))"

subsection \<open>The format's bit order, for comparison\<close>

text \<open>
  The payload as one sequence of bits: byte after byte, least significant bit of each byte
  first. \<open>lsb_value\<close> reads a run of bits as a number, the first bit the least significant.
  \<open>spec_codes bits off ws\<close> cuts consecutive runs of the widths \<open>ws\<close> starting at bit \<open>off\<close>.
\<close>

definition payload_bits :: "byte list \<Rightarrow> bool list" where
  "payload_bits bs = concat (map (\<lambda>b. map (bit b) [0..<8]) bs)"

fun lsb_value :: "bool list \<Rightarrow> nat" where
  "lsb_value [] = 0"
| "lsb_value (b # bs) = (if b then 1 else 0) + 2 * lsb_value bs"

fun spec_codes :: "bool list \<Rightarrow> nat \<Rightarrow> nat list \<Rightarrow> nat list" where
  "spec_codes bits off [] = []"
| "spec_codes bits off (w # ws) = lsb_value (take w (drop off bits)) # spec_codes bits (off + w) ws"

definition bit_char :: "bool \<Rightarrow> char" where
  "bit_char b = (if b then CHR ''1'' else CHR ''0'')"

lemma assemble_stream_concat:
  "assemble_stream bs s = concat (map bitset8_to_string (rev bs)) @ s"
  by (induction bs arbitrary: s) simp_all

lemma bitset8_rev_bits: "bitset8_to_string b = map bit_char (rev (map (bit b) [0..<8]))"
  by (simp add: bitset8_to_string_def bit_char_def rev_map)

lemma assemble_stream_bits:
  "assemble_stream bs [] = map bit_char (rev (payload_bits bs))"
proof -
  have "concat (map bitset8_to_string (rev bs)) = map bit_char (rev (payload_bits bs))"
    unfolding payload_bits_def
    by (induction bs) (simp_all add: bitset8_rev_bits del: upt.simps)
  then show ?thesis by (simp add: assemble_stream_concat)
qed

lemma length_payload_bits: "length (payload_bits bs) = 8 * length bs"
  unfolding payload_bits_def by (induction bs) simp_all

lemma length_assemble_stream: "length (assemble_stream bs []) = 8 * length bs"
  by (simp add: assemble_stream_bits length_payload_bits)

lemma foldl_bin_digit_append:
  "foldl (\<lambda>acc c. 2 * acc + bin_digit c) a (xs @ [c]) =
     2 * foldl (\<lambda>acc c. 2 * acc + bin_digit c) a xs + bin_digit c"
  by simp

lemma msb_string_value:
  "foldl (\<lambda>acc c. 2 * acc + bin_digit c) 0 (map bit_char (rev xs)) = lsb_value xs"
  by (induction xs) (simp_all add: bin_digit_def bit_char_def)

lemma lsb_value_less: "lsb_value xs < 2 ^ length xs"
  by (induction xs) auto

lemma window_rev:
  assumes "off + w \<le> length P"
  shows "take w (drop (length P - off - w) (rev P)) = rev (take w (drop off P))"
proof -
  have "rev (take w (drop off P)) = drop (length P - off - w) (take (length P - off) (rev P))"
    by (simp add: rev_take rev_drop)
  also have "\<dots> = take w (drop (length P - off - w) (rev P))"
    using assms by (simp add: drop_take)
  finally show ?thesis by simp
qed

lemma fetch_code_at_offset:
  assumes fit: "off + w \<le> 8 * length payload" and w: "0 < w" "w \<le> 31"
  shows "fetch_code (assemble_stream payload []) (8 * length payload - off) w =
           Inr (lsb_value (take w (drop off (payload_bits payload))),
                8 * length payload - (off + w))"
proof -
  let ?P = "payload_bits payload"
  let ?L = "8 * length payload"
  have len: "length ?P = ?L" by (rule length_payload_bits)
  have win: "take w (drop (?L - off - w) (map bit_char (rev ?P))) =
               map bit_char (rev (take w (drop off ?P)))"
    using window_rev [of off w ?P] fit len by (simp add: take_map drop_map)
  have lw: "length (take w (drop off ?P)) = w"
    using fit len by simp
  have ne: "map bit_char (rev (take w (drop off ?P))) \<noteq> []"
    using lw w by auto
  have "lsb_value (take w (drop off ?P)) < 2 ^ w"
    using lsb_value_less [of "take w (drop off ?P)"] lw by simp
  also have "(2::nat) ^ w \<le> 2 ^ 31"
    using w by (intro power_increasing) simp_all
  finally have small: "\<not> 2147483647 < int (lsb_value (take w (drop off ?P)))" by simp
  have "stoi2 (map bit_char (rev (take w (drop off ?P)))) =
          Inr (lsb_value (take w (drop off ?P)))"
    unfolding stoi2_def using ne small by (simp add: msb_string_value Let_def)
  moreover have "?L - off - w = ?L - (off + w)" by simp
  ultimately show ?thesis
    unfolding fetch_code_def using fit win
    by (auto simp add: assemble_stream_bits len)
qed

text \<open>
  C6. The codes that successive calls of \<^verbatim>\<open>fetch_code\<close> extract from the assembled stream,
  starting at \<^verbatim>\<open>pos = stream.length()\<close>, are the numbers formed by consecutive runs of the
  payload's bits in the format's order (least significant bit of the first byte first, runs
  crossing byte boundaries): the k-th code is the run that starts at the sum of the widths
  before it. This holds for widths from 1 to 31 bits while the payload has bits left.
\<close>

theorem fetch_codes_lsb_first:
  assumes "sum_list ws \<le> 8 * length payload"
    and "\<forall>w \<in> set ws. 0 < w \<and> w \<le> 31"
  shows "fetch_codes (assemble_stream payload []) (length (assemble_stream payload [])) ws =
           Inr (spec_codes (payload_bits payload) 0 ws, 8 * length payload - sum_list ws)"
proof -
  have gen: "off + sum_list ws \<le> 8 * length payload \<Longrightarrow>
             \<forall>w \<in> set ws. 0 < w \<and> w \<le> 31 \<Longrightarrow>
             fetch_codes (assemble_stream payload []) (8 * length payload - off) ws =
               Inr (spec_codes (payload_bits payload) off ws,
                    8 * length payload - (off + sum_list ws))" for off
  proof (induction ws arbitrary: off)
    case Nil
    then show ?case by simp
  next
    case (Cons w ws)
    have step: "fetch_code (assemble_stream payload []) (8 * length payload - off) w =
                  Inr (lsb_value (take w (drop off (payload_bits payload))),
                       8 * length payload - (off + w))"
      using Cons.prems by (intro fetch_code_at_offset) simp_all
    have rest: "fetch_codes (assemble_stream payload []) (8 * length payload - (off + w)) ws =
                  Inr (spec_codes (payload_bits payload) (off + w) ws,
                       8 * length payload - (off + w + sum_list ws))"
      using Cons.prems by (intro Cons.IH) simp_all
    show ?case by (simp add: step rest add.assoc)
  qed
  show ?thesis using gen [of 0] assms by (simp add: length_assemble_stream)
qed

theorem fetch_codes_lsb_first_witness:
  "fetch_codes (assemble_stream [0x8C, 0x2D] []) (length (assemble_stream [0x8C, 0x2D] [])) [3, 3, 4] =
     Inr ([4, 1, 6], 6)
   \<and> spec_codes (payload_bits [0x8C, 0x2D]) 0 [3, 3, 4] = [4, 1, 6]"
proof -
  have a: "sum_list [3, 3, 4] \<le> 8 * length [0x8C, 0x2D :: byte]" by simp
  have b: "\<forall>w \<in> set [3, 3, 4 :: nat]. 0 < w \<and> w \<le> 31" by simp
  have c: "spec_codes (payload_bits [0x8C, 0x2D]) 0 [3, 3, 4] = [4, 1, 6]"
    by code_simp
  show ?thesis using fetch_codes_lsb_first [OF a b] c by simp
qed


section \<open>LZW decompression\<close>

text \<open>
  The code table is a \<^verbatim>\<open>std::unordered_map<int, std::vector<int>>\<close>: here an association list
  with one pair per key, so that \<^verbatim>\<open>table.size()\<close> is its length. \<^verbatim>\<open>table.find(k) != table.end()\<close>
  is \<open>table_find\<close>. \<^verbatim>\<open>table[k]\<close> inserts an empty vector when the key is missing and then
  gives the vector: \<open>table_touch\<close> is the insertion, \<open>table_get\<close> the value read.
\<close>

type_synonym lzw_table = "(nat \<times> nat list) list"

definition table_find :: "lzw_table \<Rightarrow> nat \<Rightarrow> bool" where
  "table_find t k = (map_of t k \<noteq> None)"

definition table_get :: "lzw_table \<Rightarrow> nat \<Rightarrow> nat list" where
  "table_get t k = (case map_of t k of None \<Rightarrow> [] | Some v \<Rightarrow> v)"

definition table_touch :: "lzw_table \<Rightarrow> nat \<Rightarrow> lzw_table" where
  "table_touch t k = (if table_find t k then t else AList.update k [] t)"

text \<open>
  \<^verbatim>\<open>init_table\<close>: a singleton vector for every colour, then empty vectors at the clear and the
  end-of-information code (overwriting a colour's entry when the codes collide with one).
\<close>

definition init_table :: "nat \<Rightarrow> nat \<Rightarrow> nat \<Rightarrow> nat \<Rightarrow> lzw_table" where
  "init_table ncolors code_size clear_code eoi_code =
     AList.update eoi_code []
       (AList.update clear_code []
         (fold (\<lambda>i t. AList.update i [i] t) [0..<ncolors] []))"

definition clear_code :: "nat \<Rightarrow> nat" where
  "clear_code lzw_min = 2 ^ lzw_min"

definition eoi_code :: "nat \<Rightarrow> nat" where
  "eoi_code lzw_min = clear_code lzw_min + 1"

definition first_code_size :: "nat \<Rightarrow> nat" where
  "first_code_size lzw_min = lzw_min + 1"

text \<open>The variables of the decoding loop. \<open>pos\<close> is the read position in the bit string.\<close>

record lzw_state =
  pos :: nat
  code_size :: nat
  table :: lzw_table
  table_index :: nat
  prev :: nat
  index_stream :: "nat list"

datatype lzw_step_result = Continue lzw_state | Break lzw_state

text \<open>
  The end of an iteration that handled a data code:
  \<^verbatim>\<open>if (table.size() == (1 << code_size) && code_size < 12) code_size++; table_index++; prev = code;\<close>
\<close>

definition lzw_advance :: "nat \<Rightarrow> lzw_state \<Rightarrow> lzw_state" where
  "lzw_advance code s =
     s\<lparr>code_size := (if length (table s) = 2 ^ code_size s \<and> code_size s < 12
                     then code_size s + 1 else code_size s),
       table_index := table_index s + 1,
       prev := code\<rparr>"

text \<open>
  An iteration on a code that is neither the clear nor the end code. The test
  \<^verbatim>\<open>if (table.size() >= 4096)\<close> before the two branches has an empty body (its \<^verbatim>\<open>continue\<close> is
  commented out), so nothing of it is left here. Reading element 0 of an empty vector is
  undefined behaviour.

  Code not in the table:
  \<^verbatim>\<open>table[code] = table[prev]; table[code].push_back(table[prev][0]);\<close> the new entry is
  appended to the output and \<^verbatim>\<open>table_index = code\<close>.

  Code in the table: its entry is appended to the output, then
  \<^verbatim>\<open>table[table_index] = table[prev]; table[table_index].push_back(table[code][0]);\<close>
\<close>

definition lzw_data_code :: "nat \<Rightarrow> lzw_state \<Rightarrow> error + lzw_state" where
  "lzw_data_code code s =
     (let t = table s; p = prev s in
      if \<not> table_find t code then
        (let t1 = AList.update code (table_get t p) (table_touch t p) in
         if table_get t1 p = [] then Inl UndefinedBehaviour
         else
           let t2 = AList.update code (table_get t1 code @ [hd (table_get t1 p)]) t1
           in Inr (lzw_advance code
                     (s\<lparr>table := t2,
                        index_stream := index_stream s @ table_get t2 code,
                        table_index := code\<rparr>)))
      else
        (let out = index_stream s @ table_get t code;
             ti = table_index s;
             t1 = AList.update ti (table_get t p) (table_touch t p) in
         if table_get t1 code = [] then Inl UndefinedBehaviour
         else
           let t2 = AList.update ti (table_get t1 ti @ [hd (table_get t1 code)]) t1
           in Inr (lzw_advance code (s\<lparr>table := t2, index_stream := out\<rparr>))))"

text \<open>
  One iteration of \<^verbatim>\<open>while (true)\<close>: fetch a code; on the clear code reset the code size, the
  table and \<^verbatim>\<open>table_index\<close>, fetch the next code and emit it as it is; on the end code leave
  the loop; otherwise handle a data code.
\<close>

definition lzw_step :: "nat \<Rightarrow> nat \<Rightarrow> string \<Rightarrow> lzw_state \<Rightarrow> error + lzw_step_result" where
  "lzw_step lzw_min ncolors stream s =
     (case fetch_code stream (pos s) (code_size s) of
        Inl e \<Rightarrow> Inl e
      | Inr (code, p) \<Rightarrow>
          if code = clear_code lzw_min then
            (case fetch_code stream p (first_code_size lzw_min) of
               Inl e \<Rightarrow> Inl e
             | Inr (code', p') \<Rightarrow>
                 Inr (Continue
                   (s\<lparr>pos := p',
                      code_size := first_code_size lzw_min,
                      table := init_table ncolors (first_code_size lzw_min)
                                 (clear_code lzw_min) (eoi_code lzw_min),
                      table_index := eoi_code lzw_min + 1,
                      index_stream := index_stream s @ [code'],
                      prev := code'\<rparr>)))
          else if code = eoi_code lzw_min then Inr (Break (s\<lparr>pos := p\<rparr>))
          else
            (case lzw_data_code code (s\<lparr>pos := p\<rparr>) of
               Inl e \<Rightarrow> Inl e
             | Inr s' \<Rightarrow> Inr (Continue s')))"

text \<open>
  Before the loop: the first code is fetched and dropped without a look at it, the second is
  emitted as it is and becomes \<^verbatim>\<open>prev\<close>.
\<close>

definition lzw_start :: "nat \<Rightarrow> nat \<Rightarrow> string \<Rightarrow> error + lzw_state" where
  "lzw_start lzw_min ncolors stream =
     (case fetch_code stream (length stream) (first_code_size lzw_min) of
        Inl e \<Rightarrow> Inl e
      | Inr (dropped, p) \<Rightarrow>
          (case fetch_code stream p (first_code_size lzw_min) of
             Inl e \<Rightarrow> Inl e
           | Inr (code, p') \<Rightarrow>
               Inr \<lparr>pos = p',
                    code_size = first_code_size lzw_min,
                    table = init_table ncolors (first_code_size lzw_min)
                              (clear_code lzw_min) (eoi_code lzw_min),
                    table_index = eoi_code lzw_min + 1,
                    prev = code,
                    index_stream = [code]\<rparr>))"

text \<open>The state after the first \<open>n\<close> iterations of the loop, when it gets that far.\<close>

fun lzw_iterate :: "nat \<Rightarrow> nat \<Rightarrow> string \<Rightarrow> nat \<Rightarrow> lzw_state \<Rightarrow> error + lzw_step_result" where
  "lzw_iterate lzw_min ncolors stream 0 s = Inr (Continue s)"
| "lzw_iterate lzw_min ncolors stream (Suc n) s =
     (case lzw_step lzw_min ncolors stream s of
        Inl e \<Rightarrow> Inl e
      | Inr (Break s') \<Rightarrow> Inr (Break s')
      | Inr (Continue s') \<Rightarrow> lzw_iterate lzw_min ncolors stream n s')"

lemma fetch_code_pos:
  assumes "fetch_code stream p cs = Inr (c, p')"
  shows "p' < p"
proof -
  from assms have ok: "\<not> p < cs" "p' = p - cs"
    and ne: "take cs (drop (p - cs) stream) \<noteq> []"
    by (auto simp: fetch_code_def stoi2_def split: if_splits sum.splits)
  from ne have "0 < cs" by (cases cs) auto
  with ok show ?thesis by simp
qed

lemma lzw_data_code_pos: "lzw_data_code code s = Inr s' \<Longrightarrow> pos s' = pos s"
  by (auto simp: lzw_data_code_def lzw_advance_def Let_def split: if_splits)

lemma lzw_step_pos:
  assumes "lzw_step lzw_min ncolors stream s = Inr (Continue s')"
  shows "pos s' < pos s"
proof -
  from assms obtain code p where f: "fetch_code stream (pos s) (code_size s) = Inr (code, p)"
    by (auto simp: lzw_step_def split: sum.splits)
  have p: "p < pos s" using f by (rule fetch_code_pos)
  show ?thesis
  proof (cases "code = clear_code lzw_min")
    case True
    with assms f obtain c' p' where f': "fetch_code stream p (first_code_size lzw_min) = Inr (c', p')"
      and s': "pos s' = p'"
      by (auto simp: lzw_step_def split: sum.splits)
    from f' have "p' < p" by (rule fetch_code_pos)
    with p s' show ?thesis by simp
  next
    case False
    with assms f have "lzw_data_code code (s\<lparr>pos := p\<rparr>) = Inr s'"
      by (auto simp: lzw_step_def split: sum.splits if_splits)
    then have "pos s' = p" by (simp add: lzw_data_code_pos)
    with p show ?thesis by simp
  qed
qed

text \<open>
  The whole loop. It ends: every iteration that goes on has moved \<^verbatim>\<open>pos\<close> down, and a fetch
  below the start of the string throws.
\<close>

function lzw_loop :: "nat \<Rightarrow> nat \<Rightarrow> string \<Rightarrow> lzw_state \<Rightarrow> error + lzw_state" where
  "lzw_loop lzw_min ncolors stream s =
     (case lzw_step lzw_min ncolors stream s of
        Inl e \<Rightarrow> Inl e
      | Inr (Break s') \<Rightarrow> Inr s'
      | Inr (Continue s') \<Rightarrow> lzw_loop lzw_min ncolors stream s')"
  by pat_completeness auto
termination
  by (relation "measure (\<lambda>(lzw_min, ncolors, stream, s). pos s)") (auto dest: lzw_step_pos)

text \<open>
  The decoder of one image: from the minimum code size, the number of colours of the image's
  colour table and the data bytes of its sub-blocks to the index stream. The codes and sizes
  are \<^verbatim>\<open>int\<close>s in the source and natural numbers here; they agree up to a minimum code
  size of 30. \<^verbatim>\<open>1 << lzw_min\<close> is undefined from 32 on. At 31 the clear and end codes are
  negative \<^verbatim>\<open>int\<close>s that no fetched code equals, the two fetches before the loop and the
  first one in it run as usual (and throw when they fail), and the first data code then
  reaches \<^verbatim>\<open>1 << code_size\<close> with a code size of 32, which is undefined.
\<close>

definition lzw_decode :: "nat \<Rightarrow> nat \<Rightarrow> byte list \<Rightarrow> error + nat list" where
  "lzw_decode lzw_min ncolors payload =
     (if 32 \<le> lzw_min then Inl UndefinedBehaviour
      else
        let stream = assemble_stream payload [] in
        case lzw_start lzw_min ncolors stream of
          Inl e \<Rightarrow> Inl e
        | Inr s0 \<Rightarrow>
            if lzw_min = 31 then
              (case fetch_code stream (pos s0) (code_size s0) of
                 Inl e \<Rightarrow> Inl e
               | Inr c \<Rightarrow> Inl UndefinedBehaviour)
            else
              (case lzw_loop lzw_min ncolors stream s0 of
                 Inl e \<Rightarrow> Inl e
               | Inr s \<Rightarrow> Inr (index_stream s)))"


subsection \<open>Code size\<close>

text \<open>A short run for concrete checks: the first three data bytes of a four-colour image.\<close>

definition sample_s0 :: lzw_state where
  "sample_s0 = \<lparr>pos = 18, code_size = 3, table = init_table 4 3 4 5, table_index = 6,
                 prev = 1, index_stream = [1]\<rparr>"

definition sample_s1 :: lzw_state where
  "sample_s1 = \<lparr>pos = 15, code_size = 3,
       table = [(0, [0]), (1, [1]), (2, [2]), (3, [3]), (4, []), (5, []), (6, [1, 1])],
       table_index = 7, prev = 6, index_stream = [1, 1, 1]\<rparr>"

definition sample_s2 :: lzw_state where
  "sample_s2 = \<lparr>pos = 12, code_size = 4,
       table = [(0, [0]), (1, [1]), (2, [2]), (3, [3]), (4, []), (5, []), (6, [1, 1]),
                (7, [1, 1, 1])],
       table_index = 8, prev = 6, index_stream = [1, 1, 1, 1, 1]\<rparr>"

lemma lzw_data_code_size:
  assumes "lzw_data_code code s = Inr s'"
  shows "code_size s' = (if length (table s') = 2 ^ code_size s \<and> code_size s < 12
                         then code_size s + 1 else code_size s)"
  using assms
  by (auto simp: lzw_data_code_def lzw_advance_def Let_def split: if_splits)

lemma lzw_step_code_size:
  assumes f: "fetch_code stream (pos s) (code_size s) = Inr (code, p)"
    and st: "lzw_step lzw_min ncolors stream s = Inr (Continue s')"
  shows "if code = clear_code lzw_min then code_size s' = lzw_min + 1
         else code_size s' = (if length (table s') = 2 ^ code_size s \<and> code_size s < 12
                              then code_size s + 1 else code_size s)"
proof (cases "code = clear_code lzw_min")
  case True
  with f st show ?thesis
    by (auto simp: lzw_step_def first_code_size_def split: sum.splits)
next
  case False
  with f st have "lzw_data_code code (s\<lparr>pos := p\<rparr>) = Inr s'"
    by (auto simp: lzw_step_def split: sum.splits if_splits)
  from lzw_data_code_size [OF this] False show ?thesis by simp
qed

lemma lzw_step_code_size_range:
  assumes st: "lzw_step lzw_min ncolors stream s = Inr (Continue s')"
    and r: "lzw_min + 1 \<le> code_size s" "code_size s \<le> max 12 (lzw_min + 1)"
  shows "lzw_min + 1 \<le> code_size s' \<and> code_size s' \<le> max 12 (lzw_min + 1)"
proof -
  from st obtain code p where f: "fetch_code stream (pos s) (code_size s) = Inr (code, p)"
    by (auto simp: lzw_step_def split: sum.splits)
  from lzw_step_code_size [OF f st] r show ?thesis
    by (auto split: if_splits)
qed

lemma lzw_start_code_size:
  "lzw_start lzw_min ncolors stream = Inr s0 \<Longrightarrow> code_size s0 = lzw_min + 1"
  by (auto simp: lzw_start_def first_code_size_def split: sum.splits)

lemma lzw_iterate_code_size_range:
  assumes "lzw_iterate lzw_min ncolors stream n s = Inr (Continue s')"
    and "lzw_min + 1 \<le> code_size s" "code_size s \<le> max 12 (lzw_min + 1)"
  shows "lzw_min + 1 \<le> code_size s' \<and> code_size s' \<le> max 12 (lzw_min + 1)"
  using assms
proof (induction n arbitrary: s)
  case 0
  then show ?case by simp
next
  case (Suc n)
  then obtain s1 where s1: "lzw_step lzw_min ncolors stream s = Inr (Continue s1)"
    and r: "lzw_iterate lzw_min ncolors stream n s1 = Inr (Continue s')"
    by (auto split: sum.splits lzw_step_result.splits)
  from lzw_step_code_size_range [OF s1] Suc.prems
  have "lzw_min + 1 \<le> code_size s1 \<and> code_size s1 \<le> max 12 (lzw_min + 1)" by simp
  with Suc.IH [OF r] show ?case by simp
qed

text \<open>
  C5, as stated. The claim keeps the code size between \<open>lzw_min + 1\<close> and 12 throughout
  decoding. The minimum code size is a byte of the file that nothing checks. With a minimum
  code size of 12 the data bytes \<^verbatim>\<open>00 00 00 04 40\<close> decode to the end (one index), and the
  code size is 13 from the start.
\<close>

theorem code_size_range_counterexample:
  "map_sum id code_size (lzw_start 12 2 (assemble_stream [0, 0, 0, 0x04, 0x40] [])) = Inr 13 \<and>
   lzw_decode 12 2 [0, 0, 0, 0x04, 0x40] = Inr [0] \<and>
   \<not> (13 :: nat) \<le> 12"
proof -
  have "map_sum id code_size (lzw_start 12 2 (assemble_stream [0, 0, 0, 0x04, 0x40] [])) = Inr 13"
    by code_simp
  moreover have "lzw_decode 12 2 [0, 0, 0, 0x04, 0x40] = Inr [0]"
    by code_simp
  ultimately show ?thesis by simp
qed

text \<open>
  C5, amended. Along a decoding run, whatever the minimum code size: an iteration that reads
  the clear code leaves the code size at \<open>lzw_min + 1\<close>; any other iteration that goes on
  never lowers it, and raises it by one exactly when, after the iteration's table update, the
  table size equals 2 to the (old) code size and the code size is below 12. In every state
  the loop reaches the code size lies between \<open>lzw_min + 1\<close> and the larger of 12 and
  \<open>lzw_min + 1\<close>: between \<open>lzw_min + 1\<close> and 12 when \<open>lzw_min\<close> is at most 11, and fixed
  at \<open>lzw_min + 1\<close> when it is 12 or more.
\<close>

theorem lzw_code_size_discipline:
  assumes "lzw_start lzw_min ncolors stream = Inr s0"
    and "lzw_iterate lzw_min ncolors stream n s0 = Inr (Continue s)"
    and "fetch_code stream (pos s) (code_size s) = Inr (code, p)"
    and "lzw_step lzw_min ncolors stream s = Inr (Continue s')"
  shows "lzw_min + 1 \<le> code_size s \<and> code_size s \<le> max 12 (lzw_min + 1) \<and>
         (lzw_min \<le> 11 \<longrightarrow> code_size s \<le> 12) \<and>
         (12 \<le> lzw_min \<longrightarrow> code_size s = lzw_min + 1) \<and>
         (if code = clear_code lzw_min then code_size s' = lzw_min + 1
          else code_size s \<le> code_size s' \<and>
               code_size s' = (if length (table s') = 2 ^ code_size s \<and> code_size s < 12
                               then code_size s + 1 else code_size s))"
proof -
  have s0: "code_size s0 = lzw_min + 1"
    using assms(1) by (rule lzw_start_code_size)
  have rng: "lzw_min + 1 \<le> code_size s \<and> code_size s \<le> max 12 (lzw_min + 1)"
    using lzw_iterate_code_size_range [OF assms(2)] s0 by simp
  from lzw_step_code_size [OF assms(3) assms(4)] rng show ?thesis
    by (auto split: if_splits)
qed

lemma sample_stream: "assemble_stream [0x8C, 0x2D, 0x99] [] = ''100110010010110110001100''"
  by code_simp

lemma sample_table: "init_table 4 3 4 5 = [(0, [0]), (1, [1]), (2, [2]), (3, [3]), (4, []), (5, [])]"
  by code_simp

lemma sample_start: "lzw_start 2 4 ''100110010010110110001100'' = Inr sample_s0"
  by (simp add: lzw_start_def first_code_size_def fetch_code_def stoi2_def bin_digit_def
      clear_code_def eoi_code_def sample_s0_def)

lemma sample_step1:
  "lzw_step 2 4 ''100110010010110110001100'' sample_s0 =
     Inr (Continue sample_s1)"
  by (simp add: lzw_step_def fetch_code_def stoi2_def bin_digit_def
      clear_code_def eoi_code_def sample_s0_def sample_s1_def sample_table lzw_data_code_def Let_def
      table_find_def table_get_def table_touch_def lzw_advance_def)

lemma sample_step2:
  "lzw_step 2 4 ''100110010010110110001100''
      sample_s1 = Inr (Continue sample_s2)"
  by (simp add: lzw_step_def fetch_code_def stoi2_def bin_digit_def
      clear_code_def eoi_code_def lzw_data_code_def Let_def sample_s1_def sample_s2_def
      table_find_def table_get_def table_touch_def lzw_advance_def)

theorem lzw_code_size_discipline_witness:
  "lzw_start 2 4 (assemble_stream [0x8C, 0x2D, 0x99] []) = Inr sample_s0 \<and>
   lzw_iterate 2 4 (assemble_stream [0x8C, 0x2D, 0x99] []) 1 sample_s0 = Inr (Continue sample_s1) \<and>
   lzw_step 2 4 (assemble_stream [0x8C, 0x2D, 0x99] []) sample_s1 = Inr (Continue sample_s2) \<and>
   code_size sample_s1 = 3 \<and> code_size sample_s2 = 4 \<and> length (table sample_s2) = 2 ^ 3 \<and>
   code_size sample_s1 \<le> code_size sample_s2"
proof -
  let ?st = "assemble_stream [0x8C, 0x2D, 0x99] []"
  have b: "lzw_start 2 4 ?st = Inr sample_s0"
    by (simp only: sample_stream sample_start)
  have c: "lzw_iterate 2 4 ?st 1 sample_s0 = Inr (Continue sample_s1)"
    unfolding sample_stream by (simp add: sample_step1)
  have d: "fetch_code ?st (pos sample_s1) (code_size sample_s1) = Inr (6, 12)"
    unfolding sample_stream by (simp add: sample_s1_def fetch_code_def stoi2_def bin_digit_def)
  have e: "lzw_step 2 4 ?st sample_s1 = Inr (Continue sample_s2)"
    by (simp only: sample_stream sample_step2)
  have "code_size sample_s1 \<le> code_size sample_s2"
    using lzw_code_size_discipline [OF b c d e] by (simp add: clear_code_def)
  with b c e show ?thesis
    by (simp add: sample_s1_def sample_s2_def)
qed

subsection \<open>A run that fills the table\<close>

text \<open>
  The data bytes of an image of 256 colours with minimum code size 8: 5409 zero bytes, then
  \<^verbatim>\<open>0x10 0x10\<close>. Every code in it is 0 until the end-of-information code 257 at the end.
  \<open>zero_run_cs n\<close> is the code size in effect while the table has \<open>n\<close> entries and
  \<open>zero_run_bits k\<close> the number of bits the first \<open>k\<close> iterations read; \<open>zero_run_inv\<close>
  describes the loop's variables after \<open>k\<close> iterations.
\<close>

definition overflow_payload :: "byte list" where
  "overflow_payload = replicate 5409 0 @ [0x10, 0x10]"

definition zero_run_cs :: "nat \<Rightarrow> nat" where
  "zero_run_cs n = (if n < 512 then 9 else if n < 1024 then 10 else if n < 2048 then 11 else 12)"

primrec zero_run_bits :: "nat \<Rightarrow> nat" where
  "zero_run_bits 0 = 0"
| "zero_run_bits (Suc k) = zero_run_bits k + zero_run_cs (258 + k)"

definition zero_run_inv :: "nat \<Rightarrow> nat \<Rightarrow> lzw_state \<Rightarrow> bool" where
  "zero_run_inv L k s =
     (pos s + zero_run_bits k + 18 = L \<and> code_size s = zero_run_cs (258 + k) \<and>
      map fst (table s) = [0..<258 + k] \<and> map_of (table s) 0 = Some [0] \<and>
      table_index s = 258 + k \<and> prev s = 0 \<and> index_stream s = replicate (Suc k) 0)"

lemma zero_run_bits_closed:
  "zero_run_bits k =
     (if k \<le> 254 then 9 * k
      else if k \<le> 766 then 2286 + 10 * (k - 254)
      else if k \<le> 1790 then 7406 + 11 * (k - 766)
      else 18670 + 12 * (k - 1790))"
  by (induction k) (auto simp: zero_run_cs_def)

lemma zero_run_bits_bound: "k \<le> 3839 \<Longrightarrow> zero_run_bits k \<le> 43258"
  by (auto simp add: zero_run_bits_closed)

lemma zero_run_bits_final: "zero_run_bits 3839 = 43258"
  by (simp add: zero_run_bits_closed)

lemma stoi2_zeros: "0 < n \<Longrightarrow> stoi2 (replicate n CHR ''0'') = Inr 0"
proof -
  have "foldl (\<lambda>acc c. 2 * acc + bin_digit c) 0 (replicate n CHR ''0'') = 0"
    by (induction n) (simp_all add: bin_digit_def)
  moreover assume "0 < n"
  ultimately show ?thesis by (simp add: stoi2_def)
qed

lemma fetch_code_zero_region:
  assumes "length pre + cs \<le> p" "p \<le> length pre + m" "0 < cs"
  shows "fetch_code (pre @ replicate m CHR ''0'') p cs = Inr (0, p - cs)"
proof -
  have "take cs (drop (p - cs) (pre @ replicate m CHR ''0'')) = replicate cs CHR ''0''"
    using assms by (simp add: min_def)
  then show ?thesis
    using assms by (simp add: fetch_code_def stoi2_zeros)
qed

lemma keys_fold_colors: "map fst (fold (\<lambda>i t. AList.update i [i] t) [0..<n] []) = [0..<n]"
  by (induction n) (simp_all add: update_keys)

lemma map_of_fold_colors:
  "map_of (fold (\<lambda>i t. AList.update i [i] t) [0..<n] []) i = (if i < n then Some [i] else None)"
  by (induction n) (simp_all add: update_conv')

lemma keys_init_table_256: "map fst (init_table 256 9 256 257) = [0..<258]"
proof -
  have "[0..<258] = [0..<256] @ [256, 257]"
    by (simp add: upt_rec [of 256] upt_rec [of 257] upt_add_eq_append [of 0 256 2, simplified])
  then show ?thesis
    by (simp add: init_table_def update_keys keys_fold_colors)
qed

lemma map_of_init_table_256: "map_of (init_table 256 9 256 257) 0 = Some [0]"
  by (simp add: init_table_def update_conv' map_of_fold_colors)

lemma zero_step:
  assumes inv: "zero_run_inv (12 + m) k s" and k: "k < 3839" and m: "m = 43276"
    and pre: "length pre = 12"
  shows "\<exists>s'. lzw_step 8 256 (pre @ replicate m CHR ''0'') s = Inr (Continue s') \<and>
              zero_run_inv (12 + m) (Suc k) s'"
proof -
  let ?st = "pre @ replicate m CHR ''0''"
  let ?cs = "zero_run_cs (258 + k)"
  from inv have p: "pos s + zero_run_bits k + 18 = 12 + m" and cs: "code_size s = ?cs"
    and keys: "map fst (table s) = [0..<258 + k]" and z: "map_of (table s) 0 = Some [0]"
    and ti: "table_index s = 258 + k" and pv: "prev s = 0"
    and out: "index_stream s = replicate (Suc k) 0"
    by (simp_all add: zero_run_inv_def)
  have csr: "9 \<le> ?cs" "?cs \<le> 12" by (simp_all add: zero_run_cs_def)
  have "zero_run_bits (Suc k) \<le> 43258" using k by (intro zero_run_bits_bound) simp
  then have room: "length pre + ?cs \<le> pos s" using p m pre by simp
  have f: "fetch_code ?st (pos s) (code_size s) = Inr (0, pos s - ?cs)"
    unfolding cs using room p csr by (intro fetch_code_zero_region) (simp_all add: pre)
  have found: "table_find (table s) 0" by (simp add: table_find_def z)
  have fresh: "258 + k \<notin> set (map fst (table s))" by (simp add: keys)
  define t1 where "t1 = AList.update (258 + k) [0] (table s)"
  define t2 where "t2 = AList.update (258 + k) [0, 0] t1"
  have g0: "table_get (table s) 0 = [0]" by (simp add: table_get_def z)
  have t1_0: "table_get t1 0 = [0]" by (simp add: t1_def table_get_def update_conv' z)
  have t1_ti: "table_get t1 (258 + k) = [0]" by (simp add: t1_def table_get_def update_conv')
  have "259 + k = Suc (258 + k)" by simp
  then have e: "[0..<259 + k] = [0..<258 + k] @ [258 + k]"
    by (simp only: upt_Suc_append le0)
  have keys2: "map fst t2 = [0..<259 + k]"
    using fresh by (simp add: t2_def t1_def update_keys keys e)
  have z2: "map_of t2 0 = Some [0]" by (simp add: t2_def t1_def update_conv' z)
  have len2: "length t2 = 259 + k"
    using keys2 by (metis length_map length_upt diff_zero)
  have d: "lzw_data_code 0 (s\<lparr>pos := pos s - ?cs\<rparr>) =
             Inr (lzw_advance 0 (s\<lparr>pos := pos s - ?cs, table := t2,
                                   index_stream := index_stream s @ [0]\<rparr>))"
    by (simp add: lzw_data_code_def Let_def found pv ti table_touch_def g0
        t1_def [symmetric] t1_0 t1_ti t2_def [symmetric])
  have step: "lzw_step 8 256 ?st s =
             Inr (Continue (lzw_advance 0 (s\<lparr>pos := pos s - ?cs, table := t2,
                                   index_stream := index_stream s @ [0]\<rparr>)))"
    by (simp add: lzw_step_def f clear_code_def eoi_code_def d)
  have csn: "(if 259 + k = 2 ^ ?cs \<and> ?cs < 12 then ?cs + 1 else ?cs) = zero_run_cs (259 + k)"
    by (auto simp: zero_run_cs_def)
  have "zero_run_inv (12 + m) (Suc k)
          (lzw_advance 0 (s\<lparr>pos := pos s - ?cs, table := t2,
                                   index_stream := index_stream s @ [0]\<rparr>))"
    using p room
    by (simp add: zero_run_inv_def lzw_advance_def keys2 z2 len2 cs ti out
        replicate_append_same pre) (auto simp: zero_run_cs_def)
  with step show ?thesis by blast
qed

lemma zero_iterate:
  assumes "zero_run_inv (12 + m) k s" "k + n \<le> 3839" "m = 43276" "length pre = 12"
  shows "\<exists>s'. lzw_iterate 8 256 (pre @ replicate m CHR ''0'') n s = Inr (Continue s') \<and>
              zero_run_inv (12 + m) (k + n) s'"
  using assms
proof (induction n arbitrary: k s)
  case 0
  then show ?case by simp
next
  case (Suc n)
  from Suc.prems have "k < 3839" by simp
  with Suc.prems obtain s1 where
    s1: "lzw_step 8 256 (pre @ replicate m CHR ''0'') s = Inr (Continue s1)"
    and i1: "zero_run_inv (12 + m) (Suc k) s1"
    using zero_step by blast
  from Suc.IH [OF i1] Suc.prems obtain s' where
    "lzw_iterate 8 256 (pre @ replicate m CHR ''0'') n s1 = Inr (Continue s')"
    "zero_run_inv (12 + m) (Suc k + n) s'"
    by auto
  with s1 show ?case by simp
qed

lemma overflow_stream:
  "assemble_stream overflow_payload [] = ''000100000001'' @ replicate 43276 CHR ''0''"
proof -
  have b0: "bitset8_to_string 0 = replicate 8 CHR ''0''"
    by (simp add: bitset8_to_string_def map_replicate_const)
  have z: "concat (replicate n (bitset8_to_string 0)) = replicate (8 * n) CHR ''0''" for n
    by (induction n) (simp_all add: b0 replicate_add)
  have b16: "bitset8_to_string 0x10 = ''00010000''"
    by code_simp
  have "replicate (4 + 43272) CHR ''0'' = replicate 4 CHR ''0'' @ replicate 43272 CHR ''0''"
    by (rule replicate_add)
  moreover have "replicate 4 CHR ''0'' = ''0000''"
    by (simp add: numeral_eq_Suc)
  ultimately have tail: "replicate 43276 CHR ''0'' = ''0000'' @ replicate 43272 CHR ''0''"
    by simp
  show ?thesis
    using z [of 5409]
    by (simp add: overflow_payload_def assemble_stream_concat b16 tail)
qed

lemma overflow_start:
  assumes pre: "length pre = 12"
  shows "\<exists>s0. lzw_start 8 256 (pre @ replicate 43276 CHR ''0'') = Inr s0 \<and>
        zero_run_inv (12 + 43276) 0 s0"
proof -
  let ?st = "pre @ replicate 43276 CHR ''0''"
  have f1: "fetch_code ?st 43288 9 = Inr (0, 43279)"
    using fetch_code_zero_region [of pre 9 43288 43276] pre by simp
  have f2: "fetch_code ?st 43279 9 = Inr (0, 43270)"
    using fetch_code_zero_region [of pre 9 43279 43276] pre by simp
  show ?thesis
    by (simp add: lzw_start_def first_code_size_def pre f1 f2 clear_code_def eoi_code_def
        zero_run_inv_def keys_init_table_256 map_of_init_table_256 zero_run_cs_def)
qed

lemma overflow_eoi:
  assumes "zero_run_inv (12 + 43276) 3839 s" and pre: "length pre = 12" "stoi2 pre = Inr 257"
  shows "lzw_step 8 256 (pre @ replicate 43276 CHR ''0'') s = Inr (Break (s\<lparr>pos := 0\<rparr>))"
proof -
  from assms have p: "pos s = 12" and cs: "code_size s = 12"
    by (simp_all add: zero_run_inv_def zero_run_bits_final zero_run_cs_def)
  have "fetch_code (pre @ replicate 43276 CHR ''0'') 12 12 = Inr (257, 0)"
    by (simp add: fetch_code_def pre)
  then show ?thesis
    by (simp add: lzw_step_def p cs clear_code_def eoi_code_def)
qed

lemma lzw_loop_iterate:
  "lzw_iterate lzw_min ncolors stream n s = Inr (Continue s') \<Longrightarrow>
   lzw_loop lzw_min ncolors stream s = lzw_loop lzw_min ncolors stream s'"
proof (induction n arbitrary: s)
  case 0
  then show ?case by simp
next
  case (Suc n)
  then obtain s1 where s1: "lzw_step lzw_min ncolors stream s = Inr (Continue s1)"
    and r: "lzw_iterate lzw_min ncolors stream n s1 = Inr (Continue s')"
    by (auto split: sum.splits lzw_step_result.splits)
  have "lzw_loop lzw_min ncolors stream s = lzw_loop lzw_min ncolors stream s1"
    by (subst lzw_loop.simps) (simp add: s1)
  with Suc.IH [OF r] show ?case by simp
qed

text \<open>
  C1, on the code. The claim says the table never holds more than 4096 entries. On the data
  bytes \<open>overflow_payload\<close> (minimum code size 8, 256 colours) the loop is in its 3839th
  iteration when the table, full with 4096 entries, takes one more: nothing stops
  \<^verbatim>\<open>table[table_index] = ...\<close> from adding key 4096. Decoding goes on to the end code and
  returns 3840 indices.
\<close>

theorem lzw_table_exceeds_4096:
  "\<exists>s0 s. lzw_start 8 256 (assemble_stream overflow_payload []) = Inr s0 \<and>
          lzw_iterate 8 256 (assemble_stream overflow_payload []) 3839 s0 = Inr (Continue s) \<and>
          length (table s) = 4097 \<and>
          lzw_decode 8 256 overflow_payload = Inr (replicate 3840 0)"
proof -
  define pre where "pre = ''000100000001''"
  have pre: "length pre = 12" "stoi2 pre = Inr 257"
    by (simp_all add: pre_def stoi2_def bin_digit_def)
  define st where "st = pre @ replicate 43276 CHR ''0''"
  have st: "assemble_stream overflow_payload [] = st"
    by (simp only: overflow_stream st_def pre_def)
  obtain s0 where s0: "lzw_start 8 256 st = Inr s0" and i0: "zero_run_inv (12 + 43276) 0 s0"
    unfolding st_def using overflow_start [OF pre(1)] by blast
  obtain s where it: "lzw_iterate 8 256 st 3839 s0 = Inr (Continue s)"
    and i: "zero_run_inv (12 + 43276) 3839 s"
    unfolding st_def using zero_iterate [OF i0, of 3839 pre] pre(1) by auto
  from i have "map fst (table s) = [0..<4097]" by (simp add: zero_run_inv_def)
  then have len: "length (table s) = 4097"
    by (metis length_map length_upt diff_zero)
  have "lzw_loop 8 256 st s0 = lzw_loop 8 256 st s"
    using it by (rule lzw_loop_iterate)
  also have "\<dots> = Inr (s\<lparr>pos := 0\<rparr>)"
    by (subst lzw_loop.simps) (simp add: overflow_eoi [OF i pre, folded st_def])
  finally have "lzw_decode 8 256 overflow_payload = Inr (index_stream s)"
    by (simp add: lzw_decode_def st s0)
  moreover from i have "index_stream s = replicate 3840 0" by (simp add: zero_run_inv_def)
  ultimately show ?thesis
    using s0 it len by (simp add: st)
qed


section \<open>Blocks and playback\<close>

text \<open>
  \<^verbatim>\<open>color_rgba\<close>: \<^verbatim>\<open>(a << 24) | (r << 16) | (g << 8) | b\<close>, returned as a \<^verbatim>\<open>uint32_t\<close>.
\<close>

definition color_rgba :: "byte \<Rightarrow> byte \<Rightarrow> byte \<Rightarrow> byte \<Rightarrow> 32 word" where
  "color_rgba r g b a =
     push_bit 24 (ucast a) OR push_bit 16 (ucast r) OR push_bit 8 (ucast g) OR ucast b"

record Color =
  r :: byte
  g :: byte
  b :: byte

text \<open>
  The block classes. The field \<^verbatim>\<open>top\<close> of \<^verbatim>\<open>Image\<close> is \<open>top_px\<close> here and the field
  \<^verbatim>\<open>transparent\<close> of \<^verbatim>\<open>GraphicsControl\<close> is \<open>gc_transparent\<close>; \<^verbatim>\<open>BlockType\<close> tags the
  variants of \<open>GIFBlock\<close>.
\<close>

record Image =
  width :: nat
  height :: nat
  left :: nat
  top_px :: nat
  interlace :: bool
  ct :: "Color list"
  index :: "nat list"

record GraphicsControl =
  gc_transparent :: bool
  user_input :: bool
  disposal_method :: byte
  delay_time :: nat
  color_index :: byte

record ApplicationExtension =
  appid :: "byte list"
  authcode :: "byte list"
  data_blocks :: "byte list list"

datatype GIFBlock =
    BT_IMAGE Image
  | BT_GRAPHIC_CONTROL GraphicsControl
  | BT_APPLICATION_EXTENSION ApplicationExtension
  | BT_COMMENT_BLOCK "string list"

subsection \<open>Row order\<close>

text \<open>
  One interlace pass, \<^verbatim>\<open>for (int i = start; i < img_height; i += step, j++) row2[i] = row1[j];\<close>
  The arrays have \<^verbatim>\<open>img_height\<close> elements; an access outside is undefined behaviour. The
  source's steps are the constants 8, 8, 4 and 2; the test \<open>0 < step\<close> is here for the
  recursion to be well founded.
\<close>

function interlace_pass ::
  "nat \<Rightarrow> nat \<Rightarrow> nat \<Rightarrow> nat \<Rightarrow> nat list \<Rightarrow> nat list \<Rightarrow> error + (nat list \<times> nat)" where
  "interlace_pass step img_height i j row1 row2 =
     (if i < img_height \<and> 0 < step then
        (if j < length row1 \<and> i < length row2
         then interlace_pass step img_height (i + step) (j + 1) row1 (row2[i := row1 ! j])
         else Inl UndefinedBehaviour)
      else Inr (row2, j))"
  by pat_completeness auto
termination
  by (relation "measure (\<lambda>(step, img_height, i, j, row1, row2). img_height - i)") auto

declare interlace_pass.simps [simp del]

text \<open>
  The array \<^verbatim>\<open>row2\<close> that the compositing loop reads: for an interlaced image the four
  passes over \<^verbatim>\<open>row1[i] = i\<close>, with \<^verbatim>\<open>j\<close> running on from pass to pass; otherwise
  \<^verbatim>\<open>row2[i] = i\<close>. \<^verbatim>\<open>row2\<close> is not initialised in the source; the passes write every element.
\<close>

definition row_order :: "nat \<Rightarrow> bool \<Rightarrow> error + nat list" where
  "row_order img_height interlaced =
     (if interlaced then
        (let row1 = [0..<img_height] in
         case interlace_pass 8 img_height 0 0 row1 (replicate img_height 0) of
           Inl e \<Rightarrow> Inl e
         | Inr (ra, ja) \<Rightarrow>
         case interlace_pass 8 img_height 4 ja row1 ra of
           Inl e \<Rightarrow> Inl e
         | Inr (rb, jb) \<Rightarrow>
         case interlace_pass 4 img_height 2 jb row1 rb of
           Inl e \<Rightarrow> Inl e
         | Inr (rc, jc) \<Rightarrow>
         case interlace_pass 2 img_height 1 jc row1 rc of
           Inl e \<Rightarrow> Inl e
         | Inr (rd, jd) \<Rightarrow> Inr rd)
      else Inr [0..<img_height])"

text \<open>
  The rows in the order the format sends them, for comparison: every 8th row from row 0,
  every 8th from row 4, every 4th from row 2, every 2nd from row 1 (the test \<open>0 < step\<close>
  is again for the recursion).
\<close>

function pass_rows :: "nat \<Rightarrow> nat \<Rightarrow> nat \<Rightarrow> nat list" where
  "pass_rows step h i = (if i < h \<and> 0 < step then i # pass_rows step h (i + step) else [])"
  by pat_completeness auto
termination
  by (relation "measure (\<lambda>(step, h, i). h - i)") auto

declare pass_rows.simps [simp del]

definition visit_order :: "nat \<Rightarrow> nat list" where
  "visit_order h = pass_rows 8 h 0 @ pass_rows 8 h 4 @ pass_rows 4 h 2 @ pass_rows 2 h 1"


subsection \<open>Compositing\<close>

text \<open>
  \<^verbatim>\<open>int offset = (img_top + y) * canvas_width + (img_left + x); pixels[offset] = ...\<close>
  The sum is computed in \<^verbatim>\<open>size_t\<close> and stored in an \<^verbatim>\<open>int\<close>: the low 32 bits, read as a
  signed number. A negative or too large \<^verbatim>\<open>offset\<close> indexes outside the vector.
\<close>

definition pixel_offset :: "nat \<Rightarrow> nat \<Rightarrow> nat \<Rightarrow> nat \<Rightarrow> nat \<Rightarrow> int" where
  "pixel_offset canvas_width img_left img_top x y =
     sint (word_of_nat ((img_top + y) * canvas_width + (img_left + x)) :: 32 word)"

definition store_pixel :: "32 word list \<Rightarrow> int \<Rightarrow> 32 word \<Rightarrow> error + 32 word list" where
  "store_pixel pixels offset v =
     (if 0 \<le> offset \<and> nat offset < length pixels then Inr (pixels[nat offset := v])
      else Inl UndefinedBehaviour)"

text \<open>
  The body of the two compositing loops at \<^verbatim>\<open>(x, y)\<close>: look the index up through \<^verbatim>\<open>row2\<close>
  (\<^verbatim>\<open>row2[y] * img_width + x\<close> is \<^verbatim>\<open>int\<close> arithmetic, undefined on overflow); unless
  transparency is on and the index is \<^verbatim>\<open>trans_idx\<close>, store the colour, opaque.
\<close>

definition draw_pixel ::
  "Image \<Rightarrow> nat list \<Rightarrow> nat \<Rightarrow> bool \<Rightarrow> byte \<Rightarrow> 32 word list \<Rightarrow> nat \<times> nat \<Rightarrow> error + 32 word list" where
  "draw_pixel img row2 canvas_width transparent trans_idx pixels yx =
     (case yx of (y, x) \<Rightarrow>
        if length row2 \<le> y \<or> 2147483647 < int (row2 ! y * width img + x) \<or>
           length (index img) \<le> row2 ! y * width img + x
        then Inl UndefinedBehaviour
        else
          let ix = index img ! (row2 ! y * width img + x) in
          if (transparent \<and> ix \<noteq> unat trans_idx) \<or> \<not> transparent then
            (if length (ct img) \<le> ix then Inl UndefinedBehaviour
             else
               let c = ct img ! ix in
               store_pixel pixels (pixel_offset canvas_width (left img) (top_px img) x y)
                 (color_rgba (r c) (g c) (b c) 255))
          else Inr pixels)"

text \<open>A loop body run over a list of coordinates, stopping at the first failure.\<close>

fun for_each :: "('s \<Rightarrow> 'a \<Rightarrow> error + 's) \<Rightarrow> 'a list \<Rightarrow> 's \<Rightarrow> error + 's" where
  "for_each body [] s = Inr s"
| "for_each body (a # as) s =
     (case body s a of Inl e \<Rightarrow> Inl e | Inr s' \<Rightarrow> for_each body as s')"

text \<open>
  \<^verbatim>\<open>for (y = 0; y < img_height; ++y) for (x = 0; x < img_width; ++x)\<close>: the pairs \<open>(y, x)\<close> in
  the order the loops visit them.
\<close>

definition scan :: "nat \<Rightarrow> nat \<Rightarrow> (nat \<times> nat) list" where
  "scan img_height img_width = List.product [0..<img_height] [0..<img_width]"

definition draw_image ::
  "Image \<Rightarrow> nat \<Rightarrow> bool \<Rightarrow> byte \<Rightarrow> 32 word list \<Rightarrow> error + 32 word list" where
  "draw_image img canvas_width transparent trans_idx pixels =
     (case row_order (height img) (interlace img) of
        Inl e \<Rightarrow> Inl e
      | Inr row2 \<Rightarrow>
          for_each (draw_pixel img row2 canvas_width transparent trans_idx)
            (scan (height img) (width img)) pixels)"

subsection \<open>The playback loop\<close>

text \<open>
  The variables of the playback loop. \<^verbatim>\<open>i\<close> is \<open>block_i\<close> and the vector \<^verbatim>\<open>prev\<close> is
  \<open>prev_pixels\<close>. Window, renderer, events and the delay between frames are outside.
\<close>

record play_state =
  block_i :: nat
  delay :: nat
  disposal :: nat
  doRender :: bool
  img_left :: nat
  img_top :: nat
  img_width :: nat
  img_height :: nat
  transparent :: bool
  trans_idx :: byte
  pixels :: "32 word list"
  prev_pixels :: "32 word list"

text \<open>
  \<^verbatim>\<open>Color bkgd = gct_flag ? gct[bkgd_color_idx] : Color{255, 255, 255};\<close>
  \<^verbatim>\<open>uint32_t bkgd_color = color_rgba(bkgd.r, bkgd.g, bkgd.b, 255);\<close>
\<close>

definition background_color :: "bool \<Rightarrow> Color list \<Rightarrow> nat \<Rightarrow> error + 32 word" where
  "background_color gct_flag gct bkgd_color_idx =
     (if gct_flag then
        (if bkgd_color_idx < length gct
         then Inr (color_rgba (r (gct ! bkgd_color_idx)) (g (gct ! bkgd_color_idx))
                     (b (gct ! bkgd_color_idx)) 255)
         else Inl UndefinedBehaviour)
      else Inr (color_rgba 255 255 255 255))"

text \<open>The declarations before \<^verbatim>\<open>while (!quit)\<close>.\<close>

definition initial_state :: "nat \<Rightarrow> nat \<Rightarrow> 32 word \<Rightarrow> play_state" where
  "initial_state canvas_width canvas_height bkgd_color =
     \<lparr>block_i = 0, delay = 0, disposal = 2, doRender = False,
      img_left = 0, img_top = 0, img_width = 0, img_height = 0,
      transparent = False, trans_idx = 0,
      pixels = replicate (canvas_width * canvas_height) bkgd_color,
      prev_pixels = []\<rparr>"

definition playback_start ::
  "nat \<Rightarrow> nat \<Rightarrow> bool \<Rightarrow> Color list \<Rightarrow> nat \<Rightarrow> error + (32 word \<times> play_state)" where
  "playback_start canvas_width canvas_height gct_flag gct bkgd_color_idx =
     (case background_color gct_flag gct bkgd_color_idx of
        Inl e \<Rightarrow> Inl e
      | Inr bkgd_color \<Rightarrow> Inr (bkgd_color, initial_state canvas_width canvas_height bkgd_color))"

text \<open>Disposal method 2: the image's rectangle is filled with the background colour.\<close>

definition clear_pixel ::
  "nat \<Rightarrow> nat \<Rightarrow> nat \<Rightarrow> 32 word \<Rightarrow> 32 word list \<Rightarrow> nat \<times> nat \<Rightarrow> error + 32 word list" where
  "clear_pixel canvas_width il it bkgd_color px yx =
     (case yx of (y, x) \<Rightarrow> store_pixel px (pixel_offset canvas_width il it x y) bkgd_color)"

text \<open>
  The end of an iteration: nothing when \<^verbatim>\<open>doRender\<close> is off (\<^verbatim>\<open>continue\<close>); otherwise the
  frame is presented, the \<^verbatim>\<open>switch (disposal)\<close> runs, then \<^verbatim>\<open>prev = pixels; doRender = false;\<close>
\<close>

definition present_and_dispose :: "nat \<Rightarrow> 32 word \<Rightarrow> play_state \<Rightarrow> error + play_state" where
  "present_and_dispose canvas_width bkgd_color s =
     (if \<not> doRender s then Inr s
      else
        (case (if disposal s = 2 then
                 for_each (clear_pixel canvas_width (img_left s) (img_top s) bkgd_color)
                   (scan (img_height s) (img_width s)) (pixels s)
               else if disposal s = 3 then Inr (prev_pixels s)
               else Inr (pixels s)) of
           Inl e \<Rightarrow> Inl e
         | Inr px \<Rightarrow> Inr (s\<lparr>pixels := px, prev_pixels := px, doRender := False\<rparr>)))"

text \<open>
  One iteration of \<^verbatim>\<open>while (!quit)\<close>: take \<^verbatim>\<open>blocks[i]\<close>, move \<^verbatim>\<open>i\<close> on cyclically, act on the
  block's type, then present and dispose. With no block at all \<^verbatim>\<open>blocks[i]\<close> is outside
  the vector.
\<close>

definition play_iteration ::
  "GIFBlock list \<Rightarrow> nat \<Rightarrow> 32 word \<Rightarrow> play_state \<Rightarrow> error + play_state" where
  "play_iteration blocks canvas_width bkgd_color s =
     (if length blocks \<le> block_i s then Inl UndefinedBehaviour
      else
        let s1 = s\<lparr>block_i := (block_i s + 1) mod length blocks\<rparr> in
        case blocks ! block_i s of
          BT_IMAGE img \<Rightarrow>
            (case draw_image img canvas_width (transparent s1) (trans_idx s1) (pixels s1) of
               Inl e \<Rightarrow> Inl e
             | Inr px \<Rightarrow>
                 present_and_dispose canvas_width bkgd_color
                   (s1\<lparr>img_left := left img, img_top := top_px img,
                       img_width := width img, img_height := height img,
                       pixels := px, doRender := True\<rparr>))
        | BT_GRAPHIC_CONTROL gc \<Rightarrow>
            present_and_dispose canvas_width bkgd_color
              (s1\<lparr>disposal := unat (disposal_method gc),
                  transparent := gc_transparent gc,
                  delay := delay_time gc * 10,
                  trans_idx := (if gc_transparent gc then color_index gc else trans_idx s1)\<rparr>)
        | BT_APPLICATION_EXTENSION ae \<Rightarrow> present_and_dispose canvas_width bkgd_color s1
        | BT_COMMENT_BLOCK comments \<Rightarrow> present_and_dispose canvas_width bkgd_color s1)"

text \<open>The state after \<open>n\<close> iterations of the playback loop.\<close>

fun play_iterate ::
  "GIFBlock list \<Rightarrow> nat \<Rightarrow> 32 word \<Rightarrow> nat \<Rightarrow> play_state \<Rightarrow> error + play_state" where
  "play_iterate blocks canvas_width bkgd_color 0 s = Inr s"
| "play_iterate blocks canvas_width bkgd_color (Suc n) s =
     (case play_iteration blocks canvas_width bkgd_color s of
        Inl e \<Rightarrow> Inl e
      | Inr s' \<Rightarrow> play_iterate blocks canvas_width bkgd_color n s')"


subsection \<open>Block kinds and small inputs\<close>

text \<open>
  \<^verbatim>\<open>block->type == BT_GRAPHIC_CONTROL\<close> and \<^verbatim>\<open>block->type == BT_IMAGE\<close>; \<open>sized\<close>, the
  condition of the parser's assertion on an image block; then the blocks of small files used
  for concrete checks: a 1 by 1 image of colour 0 (black) with a table of two colours, a
  graphic control block asking for disposal method 3, and a 2 by 2 image. \<open>skipped\<close> is the
  negation of the compositing loop's test at \<^verbatim>\<open>(x, y)\<close>.
\<close>

definition is_graphic_control :: "GIFBlock \<Rightarrow> bool" where
  "is_graphic_control blk = (case blk of BT_GRAPHIC_CONTROL gc \<Rightarrow> True | _ \<Rightarrow> False)"

definition is_image :: "GIFBlock \<Rightarrow> bool" where
  "is_image blk = (case blk of BT_IMAGE img \<Rightarrow> True | _ \<Rightarrow> False)"


definition black_pixel_image :: Image where
  "black_pixel_image =
     \<lparr>width = 1, height = 1, left = 0, top_px = 0, interlace = False,
      ct = [\<lparr>r = 0, g = 0, b = 0\<rparr>, \<lparr>r = 255, g = 255, b = 255\<rparr>], index = [0]\<rparr>"

definition restore_previous_control :: GraphicsControl where
  "restore_previous_control =
     \<lparr>gc_transparent = False, user_input = False, disposal_method = 3, delay_time = 10,
      color_index = 0\<rparr>"

definition overhang_image :: Image where
  "overhang_image =
     \<lparr>width = 2, height = 2, left = 0, top_px = 0, interlace = False,
      ct = [\<lparr>r = 0, g = 0, b = 0\<rparr>, \<lparr>r = 255, g = 255, b = 255\<rparr>], index = [0, 0, 1, 0]\<rparr>"

definition skipped :: "Image \<Rightarrow> nat list \<Rightarrow> bool \<Rightarrow> byte \<Rightarrow> nat \<Rightarrow> nat \<Rightarrow> bool" where
  "skipped img row2 tr ti y x = (tr \<and> index img ! (row2 ! y * width img + x) = unat ti)"


definition first_frame_state :: play_state where
  "first_frame_state =
     \<lparr>block_i = 0, delay = 0, disposal = 2, doRender = False, img_left = 0, img_top = 0,
      img_width = 1, img_height = 1, transparent = False, trans_idx = 0,
      pixels = [0xFFFFFFFF], prev_pixels = [0xFFFFFFFF]\<rparr>"

definition control_seen_state :: play_state where
  "control_seen_state =
     \<lparr>block_i = 1, delay = 100, disposal = 3, doRender = False, img_left = 0, img_top = 0,
      img_width = 0, img_height = 0, transparent = False, trans_idx = 0,
      pixels = [0xFFFFFFFF], prev_pixels = []\<rparr>"

section \<open>The block parser\<close>

text \<open>
  \<^verbatim>\<open>get_bit\<close> and \<^verbatim>\<open>get_val\<close> take an \<^verbatim>\<open>int8_t\<close>, promoted (sign-extended) to \<^verbatim>\<open>int\<close>:
  \<^verbatim>\<open>(n & (1 << p)) != 0\<close> and \<^verbatim>\<open>(n >> p) & ((1 << l) - 1)\<close>, the latter cut back to 8 bits.
\<close>

definition get_bit :: "byte \<Rightarrow> nat \<Rightarrow> bool" where
  "get_bit n p = (sint n AND push_bit p 1 \<noteq> 0)"

definition get_val :: "byte \<Rightarrow> nat \<Rightarrow> nat \<Rightarrow> byte" where
  "get_val n p l = word_of_int (drop_bit p (sint n) AND (push_bit l 1 - 1))"

text \<open>
  A 16-bit value, \<^verbatim>\<open>bytes[idx++] | (bytes[idx++] << 8)\<close>. C++14 does not order the two
  increments; they are taken from left to right, which gives the little-endian value the
  source's comment asks for.
\<close>

definition le16 :: "byte \<Rightarrow> byte \<Rightarrow> nat" where
  "le16 lo hi = unat (ucast lo OR push_bit 8 (ucast hi) :: 32 word)"

text \<open>
  The header: \<^verbatim>\<open>bool bGIF89a = bytes[4] == 0x39; assert(bGIF89a);\<close> Nothing else of bytes 0 to
  5 is read. All indexing of \<^verbatim>\<open>bytes\<close> is unchecked.
\<close>

definition check_header :: "byte list \<Rightarrow> error + unit" where
  "check_header bytes =
     (if length bytes \<le> 4 then Inl UndefinedBehaviour
      else if bytes ! 4 = 0x39 then Inr ()
      else Inl AssertionFailed)"

text \<open>A colour table of \<open>n\<close> entries read from \<^verbatim>\<open>idx\<close> on, three bytes each.\<close>

fun read_colors :: "byte list \<Rightarrow> nat \<Rightarrow> nat \<Rightarrow> error + (Color list \<times> nat)" where
  "read_colors bytes idx 0 = Inr ([], idx)"
| "read_colors bytes idx (Suc n) =
     (if length bytes < idx + 3 then Inl UndefinedBehaviour
      else
        case read_colors bytes (idx + 3) n of
          Inl e \<Rightarrow> Inl e
        | Inr (cs, idx') \<Rightarrow>
            Inr (\<lparr>r = bytes ! idx, g = bytes ! (idx + 1), b = bytes ! (idx + 2)\<rparr> # cs, idx'))"

text \<open>
  A run of data sub-blocks: a length byte, that many data bytes, until a length of 0. The
  image data, the application data and the comments are read by loops of this shape.
\<close>

function read_sub_blocks ::
  "byte list \<Rightarrow> nat \<Rightarrow> byte list list \<Rightarrow> error + (byte list list \<times> nat)" where
  "read_sub_blocks bytes idx acc =
     (if length bytes \<le> idx then Inl UndefinedBehaviour
      else if unat (bytes ! idx) = 0 then Inr (acc, idx + 1)
      else if length bytes < idx + 1 + unat (bytes ! idx) then Inl UndefinedBehaviour
      else read_sub_blocks bytes (idx + 1 + unat (bytes ! idx))
             (acc @ [take (unat (bytes ! idx)) (drop (idx + 1) bytes)]))"
  by pat_completeness auto
termination
  by (relation "measure (\<lambda>(bytes, idx, acc). length bytes - idx)") auto

declare read_sub_blocks.simps [simp del]

text \<open>
  The sub-blocks of a plain text extension are stepped over: only the length bytes are read,
  \<^verbatim>\<open>for (int i = 0; i < nbytes; ++i, ++idx) ;\<close>
\<close>

function skip_sub_blocks :: "byte list \<Rightarrow> nat \<Rightarrow> error + nat" where
  "skip_sub_blocks bytes idx =
     (if length bytes \<le> idx then Inl UndefinedBehaviour
      else if unat (bytes ! idx) = 0 then Inr (idx + 1)
      else skip_sub_blocks bytes (idx + 1 + unat (bytes ! idx)))"
  by pat_completeness auto
termination
  by (relation "measure (\<lambda>(bytes, idx). length bytes - idx)") auto

declare skip_sub_blocks.simps [simp del]

text \<open>\<^verbatim>\<open>i.index = index_stream; assert(i.index.size() == i.width * i.height);\<close>\<close>

definition finish_image :: "Image \<Rightarrow> nat list \<Rightarrow> error + Image" where
  "finish_image i decoded =
     (if length decoded = width i * height i then Inr (i\<lparr>index := decoded\<rparr>)
      else Inl AssertionFailed)"

text \<open>
  \<^verbatim>\<open>case 0x2C\<close>, with \<^verbatim>\<open>idx\<close> behind the introducer: the descriptor, the local colour table
  or else the global one, the minimum code size, the data sub-blocks, the LZW decoding and
  the size assertion.
\<close>

definition parse_image :: "byte list \<Rightarrow> Color list \<Rightarrow> nat \<Rightarrow> error + (Image \<times> nat)" where
  "parse_image bytes gct idx =
     (if length bytes < idx + 9 then Inl UndefinedBehaviour
      else
        let packed_field = bytes ! (idx + 8);
            lct_flag = get_bit packed_field 7;
            lct_size = unat (get_val packed_field 0 3);
            i = \<lparr>width = le16 (bytes ! (idx + 4)) (bytes ! (idx + 5)),
                 height = le16 (bytes ! (idx + 6)) (bytes ! (idx + 7)),
                 left = le16 (bytes ! idx) (bytes ! (idx + 1)),
                 top_px = le16 (bytes ! (idx + 2)) (bytes ! (idx + 3)),
                 interlace = get_bit packed_field 6,
                 ct = gct, index = []\<rparr>
        in
        case (if lct_flag then read_colors bytes (idx + 9) (2 ^ (lct_size + 1))
              else Inr (gct, idx + 9)) of
          Inl e \<Rightarrow> Inl e
        | Inr (table_colors, idx1) \<Rightarrow>
            if length bytes \<le> idx1 then Inl UndefinedBehaviour
            else
              (case read_sub_blocks bytes (idx1 + 1) [] of
                 Inl e \<Rightarrow> Inl e
               | Inr (subs, idx2) \<Rightarrow>
                   (case lzw_decode (unat (bytes ! idx1)) (length table_colors) (concat subs) of
                      Inl e \<Rightarrow> Inl e
                    | Inr decoded \<Rightarrow>
                        (case finish_image (i\<lparr>ct := table_colors\<rparr>) decoded of
                           Inl e \<Rightarrow> Inl e
                         | Inr img \<Rightarrow> Inr (img, idx2)))))"

text \<open>\<^verbatim>\<open>case 0xF9\<close>, with \<^verbatim>\<open>idx\<close> behind the label; the terminator byte is stepped over unread.\<close>

definition parse_graphic_control :: "byte list \<Rightarrow> nat \<Rightarrow> error + (GraphicsControl \<times> nat)" where
  "parse_graphic_control bytes idx =
     (if length bytes < idx + 5 then Inl UndefinedBehaviour
      else
        let packed = bytes ! (idx + 1) in
        Inr (\<lparr>gc_transparent = get_bit packed 0,
              user_input = get_bit packed 1,
              disposal_method = get_val packed 2 3,
              delay_time = le16 (bytes ! (idx + 2)) (bytes ! (idx + 3)),
              color_index = bytes ! (idx + 4)\<rparr>,
             idx + 6))"

text \<open>\<^verbatim>\<open>case 0xFF\<close>: block size, 8 bytes of identifier, 3 of authentication code, sub-blocks.\<close>

definition parse_application_extension ::
  "byte list \<Rightarrow> nat \<Rightarrow> error + (ApplicationExtension \<times> nat)" where
  "parse_application_extension bytes idx =
     (if length bytes < idx + 12 then Inl UndefinedBehaviour
      else
        case read_sub_blocks bytes (idx + 12) [] of
          Inl e \<Rightarrow> Inl e
        | Inr (subs, idx') \<Rightarrow>
            Inr (\<lparr>appid = take 8 (drop (idx + 1) bytes),
                  authcode = take 3 (drop (idx + 9) bytes),
                  data_blocks = subs\<rparr>,
                 idx'))"

text \<open>\<^verbatim>\<open>case 0x01\<close>: \<^verbatim>\<open>skip = bytes[idx++]; idx += skip;\<close> then the sub-blocks are stepped over.\<close>

definition parse_plain_text :: "byte list \<Rightarrow> nat \<Rightarrow> error + nat" where
  "parse_plain_text bytes idx =
     (if length bytes \<le> idx then Inl UndefinedBehaviour
      else skip_sub_blocks bytes (idx + 1 + unat (bytes ! idx)))"

text \<open>\<^verbatim>\<open>case 0xFE\<close>: every sub-block is one comment string.\<close>

definition parse_comment :: "byte list \<Rightarrow> nat \<Rightarrow> error + (string list \<times> nat)" where
  "parse_comment bytes idx =
     (case read_sub_blocks bytes idx [] of
        Inl e \<Rightarrow> Inl e
      | Inr (subs, idx') \<Rightarrow> Inr (map (map (\<lambda>c. char_of (unat c))) subs, idx'))"

text \<open>
  One turn of \<^verbatim>\<open>while (!done)\<close>, with \<^verbatim>\<open>idx\<close> at the introducer. \<open>Parsed\<close> carries the block
  pushed onto \<^verbatim>\<open>blocks\<close> (none for a plain text extension) and the new \<^verbatim>\<open>idx\<close>; \<open>Done\<close> is
  \<^verbatim>\<open>done = true\<close>, set by the trailer and also by an unknown introducer or extension label.
\<close>

datatype parse_step = Parsed "GIFBlock option" nat | Done

definition parse_block :: "byte list \<Rightarrow> Color list \<Rightarrow> nat \<Rightarrow> error + parse_step" where
  "parse_block bytes gct idx =
     (if length bytes \<le> idx then Inl UndefinedBehaviour
      else if bytes ! idx = 0x2C then
        (case parse_image bytes gct (idx + 1) of
           Inl e \<Rightarrow> Inl e
         | Inr (img, idx') \<Rightarrow> Inr (Parsed (Some (BT_IMAGE img)) idx'))
      else if bytes ! idx = 0x21 then
        (if length bytes \<le> idx + 1 then Inl UndefinedBehaviour
         else if bytes ! (idx + 1) = 0xF9 then
           (case parse_graphic_control bytes (idx + 2) of
              Inl e \<Rightarrow> Inl e
            | Inr (gc, idx') \<Rightarrow> Inr (Parsed (Some (BT_GRAPHIC_CONTROL gc)) idx'))
         else if bytes ! (idx + 1) = 0xFF then
           (case parse_application_extension bytes (idx + 2) of
              Inl e \<Rightarrow> Inl e
            | Inr (ae, idx') \<Rightarrow> Inr (Parsed (Some (BT_APPLICATION_EXTENSION ae)) idx'))
         else if bytes ! (idx + 1) = 0x01 then
           (case parse_plain_text bytes (idx + 2) of
              Inl e \<Rightarrow> Inl e
            | Inr idx' \<Rightarrow> Inr (Parsed None idx'))
         else if bytes ! (idx + 1) = 0xFE then
           (case parse_comment bytes (idx + 2) of
              Inl e \<Rightarrow> Inl e
            | Inr (cb, idx') \<Rightarrow> Inr (Parsed (Some (BT_COMMENT_BLOCK cb)) idx'))
         else Inr Done)
      else Inr Done)"



lemma read_sub_blocks_advances:
  "read_sub_blocks bytes idx acc = Inr (subs, idx') \<Longrightarrow> idx < idx'"
proof (induction bytes idx acc rule: read_sub_blocks.induct)
  case (1 bytes idx acc)
  note unfolded = "1.prems" [unfolded read_sub_blocks.simps [of bytes idx acc]]
  show ?case
  proof (cases "unat (bytes ! idx) = 0")
    case True
    with unfolded show ?thesis by (auto split: if_splits)
  next
    case False
    with unfolded have ok: "\<not> length bytes \<le> idx" "\<not> length bytes < idx + 1 + unat (bytes ! idx)"
      and r: "read_sub_blocks bytes (idx + 1 + unat (bytes ! idx))
               (acc @ [take (unat (bytes ! idx)) (drop (idx + 1) bytes)]) = Inr (subs, idx')"
      by (auto split: if_splits)
    from "1.IH" [OF ok(1) False ok(2) r] show ?thesis by simp
  qed
qed

lemma skip_sub_blocks_advances:
  "skip_sub_blocks bytes idx = Inr idx' \<Longrightarrow> idx < idx'"
proof (induction bytes idx rule: skip_sub_blocks.induct)
  case (1 bytes idx)
  note unfolded = "1.prems" [unfolded skip_sub_blocks.simps [of bytes idx]]
  show ?case
  proof (cases "unat (bytes ! idx) = 0")
    case True
    with unfolded show ?thesis by (auto split: if_splits)
  next
    case False
    with unfolded have ok: "\<not> length bytes \<le> idx"
      and r: "skip_sub_blocks bytes (idx + 1 + unat (bytes ! idx)) = Inr idx'"
      by (auto split: if_splits)
    from "1.IH" [OF ok False r] show ?thesis by simp
  qed
qed

lemma read_colors_advances:
  "read_colors bytes idx n = Inr (cs, idx') \<Longrightarrow> idx \<le> idx'"
proof (induction n arbitrary: idx cs)
  case 0
  then show ?case by simp
next
  case (Suc n)
  then obtain cs1 where "read_colors bytes (idx + 3) n = Inr (cs1, idx')"
    by (auto split: if_splits sum.splits)
  from Suc.IH [OF this] show ?case by simp
qed

lemma parse_image_advances:
  assumes "parse_image bytes gct idx = Inr (img, idx')"
  shows "idx < idx'"
proof -
  from assms obtain tc idx1 subs where
    c: "(if get_bit (bytes ! (idx + 8)) 7
         then read_colors bytes (idx + 9) (2 ^ (unat (get_val (bytes ! (idx + 8)) 0 3) + 1))
         else Inr (gct, idx + 9)) = Inr (tc, idx1)"
    and r: "read_sub_blocks bytes (idx1 + 1) [] = Inr (subs, idx')"
    by (auto simp: parse_image_def Let_def split: if_splits sum.splits)
  from c have "idx + 9 \<le> idx1"
    by (auto split: if_splits dest: read_colors_advances)
  moreover from r have "idx1 + 1 < idx'" by (rule read_sub_blocks_advances)
  ultimately show ?thesis by simp
qed

lemma parse_block_advances:
  assumes "parse_block bytes gct idx = Inr (Parsed blk idx')"
  shows "idx < idx' \<and> idx < length bytes"
  using assms
  by (auto simp: parse_block_def parse_graphic_control_def parse_application_extension_def
      parse_plain_text_def parse_comment_def Let_def
      split: if_splits sum.splits
      dest!: parse_image_advances read_sub_blocks_advances skip_sub_blocks_advances)

text \<open>
  \<^verbatim>\<open>while (!done)\<close>: blocks are parsed and collected until \<^verbatim>\<open>done\<close> is set. Every turn
  that goes on has read the introducer inside \<^verbatim>\<open>bytes\<close> and moved \<^verbatim>\<open>idx\<close> forward.
\<close>

function parse_blocks ::
  "byte list \<Rightarrow> Color list \<Rightarrow> nat \<Rightarrow> GIFBlock list \<Rightarrow> error + GIFBlock list" where
  "parse_blocks bytes gct idx blocks =
     (case parse_block bytes gct idx of
        Inl e \<Rightarrow> Inl e
      | Inr Done \<Rightarrow> Inr blocks
      | Inr (Parsed blk idx') \<Rightarrow>
          parse_blocks bytes gct idx'
            (case blk of None \<Rightarrow> blocks | Some x \<Rightarrow> blocks @ [x]))"
  by pat_completeness auto
termination
proof (relation "measure (\<lambda>(bytes, gct, idx, blocks). length bytes - idx)")
  show "wf (measure (\<lambda>(bytes, gct, idx, blocks). length bytes - idx))" by simp
next
  fix bytes :: "byte list" and gct idx and blocks :: "GIFBlock list" and x2 x11 x12
  assume "parse_block bytes gct idx = Inr x2" "x2 = Parsed x11 x12"
  then have "idx < x12 \<and> idx < length bytes"
    by (intro parse_block_advances [of bytes gct idx x11 x12]) simp
  then show "((bytes, gct, x12, case x11 of None \<Rightarrow> blocks | Some x \<Rightarrow> blocks @ [x]),
       bytes, gct, idx, blocks) \<in> measure (\<lambda>(bytes, gct, idx, blocks). length bytes - idx)"
    by auto
qed

declare parse_blocks.simps [simp del]

text \<open>
  What the parsing part of \<^verbatim>\<open>main\<close> leaves for playback: the logical screen size, the
  global colour table flag and table, the background colour index and the blocks.
\<close>

record gif_file =
  gif_canvas_width :: nat
  gif_canvas_height :: nat
  gif_gct_flag :: bool
  gif_gct :: "Color list"
  gif_bkgd_color_idx :: nat
  gif_blocks :: "GIFBlock list"

text \<open>
  The header assertion, the logical screen descriptor (bytes 6 to 11; byte 12 is not read),
  the global colour table of \<^verbatim>\<open>1 << (N + 1)\<close> entries when its flag is set, and the blocks
  from there.
\<close>

definition parse_gif :: "byte list \<Rightarrow> error + gif_file" where
  "parse_gif bytes =
     (case check_header bytes of
        Inl e \<Rightarrow> Inl e
      | Inr u \<Rightarrow>
          if length bytes < 12 then Inl UndefinedBehaviour
          else
            let packed_field = bytes ! 10;
                flag = get_bit packed_field 7;
                ncolors = 2 ^ (unat (get_val packed_field 4 3) + 1)
            in
            case (if flag then read_colors bytes 13 ncolors else Inr ([], 13)) of
              Inl e \<Rightarrow> Inl e
            | Inr (colors, idx) \<Rightarrow>
                (case parse_blocks bytes colors idx [] of
                   Inl e \<Rightarrow> Inl e
                 | Inr bs \<Rightarrow>
                     Inr \<lparr>gif_canvas_width = le16 (bytes ! 6) (bytes ! 7),
                          gif_canvas_height = le16 (bytes ! 8) (bytes ! 9),
                          gif_gct_flag = flag,
                          gif_gct = colors,
                          gif_bkgd_color_idx = unat (bytes ! 11),
                          gif_blocks = bs\<rparr>))"


subsection \<open>Small files\<close>

text \<open>
  \<open>first_frame_file\<close>: a 1 by 1 canvas without global colour table, a graphic control
  extension with disposal method 3, a 1 by 1 image with a local table of two colours whose
  data decodes to index 0, the trailer. \<open>first_frame_gif\<close> is what parsing makes of it.
  \<open>wrong_magic_file\<close> starts with \<^verbatim>\<open>XXX89a\<close>, \<open>odd_version_file\<close> with \<^verbatim>\<open>GIF999\<close> and
  \<open>gif87_file\<close> with \<^verbatim>\<open>GIF87a\<close>; each goes on with a 1 by 1 screen descriptor and the trailer.
\<close>

definition first_frame_file :: "byte list" where
  "first_frame_file =
     [0x47, 0x49, 0x46, 0x38, 0x39, 0x61, 0x01, 0x00, 0x01, 0x00, 0x00, 0x00, 0x00,
      0x21, 0xF9, 0x04, 0x0C, 0x0A, 0x00, 0x00, 0x00,
      0x2C, 0x00, 0x00, 0x00, 0x00, 0x01, 0x00, 0x01, 0x00, 0x80,
      0x00, 0x00, 0x00, 0xFF, 0xFF, 0xFF,
      0x02, 0x02, 0x44, 0x01, 0x00,
      0x3B]"

definition first_frame_gif :: gif_file where
  "first_frame_gif =
     \<lparr>gif_canvas_width = 1, gif_canvas_height = 1, gif_gct_flag = False, gif_gct = [], gif_bkgd_color_idx = 0,
      gif_blocks = [BT_GRAPHIC_CONTROL restore_previous_control, BT_IMAGE black_pixel_image]\<rparr>"

definition empty_gif :: gif_file where
  "empty_gif =
     \<lparr>gif_canvas_width = 1, gif_canvas_height = 1, gif_gct_flag = False, gif_gct = [], gif_bkgd_color_idx = 0,
      gif_blocks = []\<rparr>"

definition wrong_magic_file :: "byte list" where
  "wrong_magic_file =
     [0x58, 0x58, 0x58, 0x38, 0x39, 0x61, 0x01, 0x00, 0x01, 0x00, 0x00, 0x00, 0x00, 0x3B]"

definition odd_version_file :: "byte list" where
  "odd_version_file =
     [0x47, 0x49, 0x46, 0x39, 0x39, 0x39, 0x01, 0x00, 0x01, 0x00, 0x00, 0x00, 0x00, 0x3B]"

definition gif87_file :: "byte list" where
  "gif87_file =
     [0x47, 0x49, 0x46, 0x38, 0x37, 0x61, 0x01, 0x00, 0x01, 0x00, 0x00, 0x00, 0x00, 0x3B]"

section \<open>Properties of the parser\<close>

subsection \<open>Header\<close>


text \<open>
  C3, as stated. The claim has every input rejected whose first three bytes are not the
  magic, and every input whose version suffix is not an accepted one. A file that starts
  with \<^verbatim>\<open>XXX89a\<close> is parsed to the end, and so is one that starts with \<^verbatim>\<open>GIF999\<close>.
\<close>

theorem header_check_counterexample:
  "take 3 wrong_magic_file \<noteq> [0x47, 0x49, 0x46] \<and>
   parse_gif wrong_magic_file = Inr empty_gif \<and>
   take 3 (drop 3 odd_version_file) = [0x39, 0x39, 0x39] \<and>
   parse_gif odd_version_file = Inr empty_gif"
  by code_simp

text \<open>
  C3, amended. Header validation reads one byte: an input goes past the header exactly when
  it has a byte at index 4 and that byte is \<^verbatim>\<open>0x39\<close>, the 9 of \<^verbatim>\<open>89a\<close>. Any other byte there,
  the 7 of \<^verbatim>\<open>87a\<close> included, fails the assertion, which ends the program. Only an input
  that passes this check can be parsed.
\<close>

theorem header_accepts_on_fifth_byte:
  "(check_header bytes = Inr () \<longleftrightarrow> 4 < length bytes \<and> bytes ! 4 = 0x39) \<and>
   (4 < length bytes \<and> bytes ! 4 \<noteq> 0x39 \<longrightarrow>
      check_header bytes = Inl AssertionFailed \<and> parse_gif bytes = Inl AssertionFailed) \<and>
   (\<forall>gif. parse_gif bytes = Inr gif \<longrightarrow> 4 < length bytes \<and> bytes ! 4 = 0x39)"
  by (auto simp: check_header_def parse_gif_def split: if_splits sum.splits)

theorem header_accepts_on_fifth_byte_witness:
  "check_header first_frame_file = Inr () \<and> first_frame_file ! 4 = 0x39 \<and>
   gif87_file ! 4 = 0x37 \<and> check_header gif87_file = Inl AssertionFailed \<and>
   parse_gif gif87_file = Inl AssertionFailed"
proof -
  have a: "4 < length first_frame_file \<and> first_frame_file ! 4 = 0x39"
    by (simp add: first_frame_file_def)
  have b: "4 < length gif87_file \<and> gif87_file ! 4 \<noteq> 0x39" and c: "gif87_file ! 4 = 0x37"
    by (simp_all add: gif87_file_def)
  from header_accepts_on_fifth_byte [of first_frame_file] a
  have "check_header first_frame_file = Inr ()" by blast
  moreover from header_accepts_on_fifth_byte [of gif87_file] b
  have "check_header gif87_file = Inl AssertionFailed \<and> parse_gif gif87_file = Inl AssertionFailed"
    by blast
  ultimately show ?thesis using a c by blast
qed

subsection \<open>Index count\<close>







section \<open>Properties of the compositor\<close>

subsection \<open>Row order\<close>

lemma pass_rows_mem:
  "0 < step \<Longrightarrow> x \<in> set (pass_rows step h i) \<longleftrightarrow> i \<le> x \<and> x < h \<and> x mod step = i mod step"
proof (induction step h i rule: pass_rows.induct)
  case (1 step h i)
  show ?case
  proof (cases "i < h")
    case False
    then show ?thesis by (subst pass_rows.simps) auto
  next
    case True
    have ih: "x \<in> set (pass_rows step h (i + step)) \<longleftrightarrow>
                i + step \<le> x \<and> x < h \<and> x mod step = i mod step"
      using "1.IH" True "1.prems" by simp
    have far: "i + step \<le> x" if "i \<le> x" "x \<noteq> i" "x mod step = i mod step"
    proof -
      have "step dvd x - i" using that(1,3) by (simp add: mod_eq_dvd_iff_nat)
      moreover have "0 < x - i" using that(1,2) by simp
      ultimately have "step \<le> x - i" by (rule dvd_imp_le)
      with that(1) show ?thesis by simp
    qed
    show ?thesis
      using True "1.prems" ih far by (subst pass_rows.simps) auto
  qed
qed

lemma pass_rows_distinct: "0 < step \<Longrightarrow> distinct (pass_rows step h i)"
proof (induction step h i rule: pass_rows.induct)
  case (1 step h i)
  show ?case
  proof (cases "i < h")
    case False
    then show ?thesis by (subst pass_rows.simps) simp
  next
    case True
    with "1.IH" "1.prems" have "distinct (pass_rows step h (i + step))" by simp
    moreover have "i \<notin> set (pass_rows step h (i + step))"
      using "1.prems" by (simp add: pass_rows_mem)
    ultimately show ?thesis
      using True "1.prems" by (subst pass_rows.simps) simp
  qed
qed

lemma interlace_pass_effect:
  assumes "length row2 = h" and "j + length (pass_rows step h i) \<le> h"
  shows "\<exists>row2'. interlace_pass step h i j [0..<h] row2 =
                    Inr (row2', j + length (pass_rows step h i)) \<and>
           length row2' = h \<and>
           (\<forall>k<length (pass_rows step h i). row2' ! (pass_rows step h i ! k) = j + k) \<and>
           (\<forall>m. m \<notin> set (pass_rows step h i) \<longrightarrow> row2' ! m = row2 ! m)"
  using assms
proof (induction step h i arbitrary: j row2 rule: pass_rows.induct)
  case (1 step h i)
  show ?case
  proof (cases "i < h \<and> 0 < step")
    case False
    then have e: "pass_rows step h i = []" by (subst pass_rows.simps) simp
    have "interlace_pass step h i j [0..<h] row2 = Inr (row2, j)"
      using False by (subst interlace_pass.simps) auto
    with e "1.prems" show ?thesis by simp
  next
    case True
    let ?rest = "pass_rows step h (i + step)"
    have e: "pass_rows step h i = i # ?rest"
      using True by (subst pass_rows.simps) simp
    from "1.prems" e have jh: "j < h" and room: "(j + 1) + length ?rest \<le> h" by simp_all
    have len: "length (row2[i := j]) = h" using "1.prems" by simp
    from "1.IH" [OF True len room] obtain row2' where
      r: "interlace_pass step h (i + step) (j + 1) [0..<h] (row2[i := j]) =
            Inr (row2', j + 1 + length ?rest)"
      and l: "length row2' = h"
      and hit: "\<forall>k<length ?rest. row2' ! (?rest ! k) = j + 1 + k"
      and miss: "\<forall>m. m \<notin> set ?rest \<longrightarrow> row2' ! m = row2[i := j] ! m"
      by blast
    have "interlace_pass step h i j [0..<h] row2 =
            interlace_pass step h (i + step) (j + 1) [0..<h] (row2[i := j])"
      using True jh "1.prems"(1) by (subst interlace_pass.simps) simp
    with r have run: "interlace_pass step h i j [0..<h] row2 =
                        Inr (row2', j + length (pass_rows step h i))"
      by (simp add: e)
    have inot: "i \<notin> set ?rest" using True by (simp add: pass_rows_mem)
    with miss have at_i: "row2' ! i = j" using True "1.prems"(1) by simp
    have h1: "\<forall>k<length (pass_rows step h i). row2' ! (pass_rows step h i ! k) = j + k"
    proof (intro allI impI)
      fix k assume "k < length (pass_rows step h i)"
      then show "row2' ! (pass_rows step h i ! k) = j + k"
        using at_i hit by (cases k) (simp_all add: e)
    qed
    have h2: "\<forall>m. m \<notin> set (pass_rows step h i) \<longrightarrow> row2' ! m = row2 ! m"
      using miss by (simp add: e)
    from run l h1 h2 show ?thesis by blast
  qed
qed

lemma pass_a_mem: "x \<in> set (pass_rows 8 h 0) \<longleftrightarrow> x < h \<and> x mod 8 = 0"
  by (simp add: pass_rows_mem)

lemma pass_b_mem: "x \<in> set (pass_rows 8 h 4) \<longleftrightarrow> x < h \<and> x mod 8 = 4"
proof -
  have "4 \<le> x" if "x mod 8 = 4" using that by presburger
  then show ?thesis by (auto simp: pass_rows_mem)
qed

lemma pass_c_mem: "x \<in> set (pass_rows 4 h 2) \<longleftrightarrow> x < h \<and> (x mod 8 = 2 \<or> x mod 8 = 6)"
proof -
  have "2 \<le> x \<and> x mod 4 = 2 \<longleftrightarrow> x mod 8 = 2 \<or> x mod 8 = 6" by presburger
  then show ?thesis by (auto simp: pass_rows_mem)
qed

lemma pass_d_mem:
  "x \<in> set (pass_rows 2 h 1) \<longleftrightarrow>
     x < h \<and> (x mod 8 = 1 \<or> x mod 8 = 3 \<or> x mod 8 = 5 \<or> x mod 8 = 7)"
proof -
  have "1 \<le> x \<and> x mod 2 = 1 mod 2 \<longleftrightarrow> x mod 8 = 1 \<or> x mod 8 = 3 \<or> x mod 8 = 5 \<or> x mod 8 = 7"
    by presburger
  then show ?thesis by (simp add: pass_rows_mem) blast
qed



lemma visit_order_set: "set (visit_order h) = {0..<h}"
proof -
  have "x \<in> set (visit_order h) \<longleftrightarrow> x < h" for x
  proof -
    have c: "x mod 8 = 0 \<or> x mod 8 = 4 \<or> (x mod 8 = 2 \<or> x mod 8 = 6) \<or>
             (x mod 8 = 1 \<or> x mod 8 = 3 \<or> x mod 8 = 5 \<or> x mod 8 = 7)"
      by presburger
    have "x \<in> set (visit_order h) \<longleftrightarrow>
            x \<in> set (pass_rows 8 h 0) \<or> x \<in> set (pass_rows 8 h 4) \<or>
            x \<in> set (pass_rows 4 h 2) \<or> x \<in> set (pass_rows 2 h 1)"
      by (simp add: visit_order_def)
    also have "\<dots> \<longleftrightarrow> x < h \<and> (x mod 8 = 0 \<or> x mod 8 = 4 \<or> (x mod 8 = 2 \<or> x mod 8 = 6) \<or>
             (x mod 8 = 1 \<or> x mod 8 = 3 \<or> x mod 8 = 5 \<or> x mod 8 = 7))"
      unfolding pass_a_mem pass_b_mem pass_c_mem pass_d_mem
      by (simp only: conj_disj_distribL)
    also have "\<dots> \<longleftrightarrow> x < h"
      by (simp only: c simp_thms)
    finally show ?thesis .
  qed
  then show ?thesis by (intro set_eqI) simp
qed

lemma pass_rows_disjoint:
  "set (pass_rows 8 h 0) \<inter> set (pass_rows 8 h 4) = {}"
  "set (pass_rows 8 h 0) \<inter> set (pass_rows 4 h 2) = {}"
  "set (pass_rows 8 h 0) \<inter> set (pass_rows 2 h 1) = {}"
  "set (pass_rows 8 h 4) \<inter> set (pass_rows 4 h 2) = {}"
  "set (pass_rows 8 h 4) \<inter> set (pass_rows 2 h 1) = {}"
  "set (pass_rows 4 h 2) \<inter> set (pass_rows 2 h 1) = {}"
  unfolding disjoint_iff pass_a_mem pass_b_mem pass_c_mem pass_d_mem by auto

lemma visit_order_distinct: "distinct (visit_order h)"
  unfolding visit_order_def
  using pass_rows_disjoint [of h]
  by (simp add: pass_rows_distinct Int_Un_distrib)

lemma visit_order_length: "length (visit_order h) = h"
proof -
  have "length (visit_order h) = card (set (visit_order h))"
    using visit_order_distinct by (simp add: distinct_card)
  then show ?thesis by (simp add: visit_order_set)
qed

lemma row_order_interlaced:
  "\<exists>row2. row_order h True = Inr row2 \<and> length row2 = h \<and>
          map ((!) row2) (visit_order h) = [0..<h]"
proof -
  let ?A = "pass_rows 8 h 0" and ?B = "pass_rows 8 h 4"
  let ?C = "pass_rows 4 h 2" and ?D = "pass_rows 2 h 1"
  have total: "length ?A + length ?B + length ?C + length ?D = h"
    using visit_order_length [of h] by (simp add: visit_order_def)
  obtain ra where
    pa: "interlace_pass 8 h 0 0 [0..<h] (replicate h 0) = Inr (ra, 0 + length ?A)"
    and la: "length ra = h"
    and ha: "\<forall>k<length ?A. ra ! (?A ! k) = 0 + k"
    using interlace_pass_effect [of "replicate h 0" h 0 8 0] total by auto
  obtain rb where
    pb: "interlace_pass 8 h 4 (0 + length ?A) [0..<h] ra =
           Inr (rb, 0 + length ?A + length ?B)"
    and lb: "length rb = h"
    and hb: "\<forall>k<length ?B. rb ! (?B ! k) = 0 + length ?A + k"
    and mb: "\<forall>m. m \<notin> set ?B \<longrightarrow> rb ! m = ra ! m"
    using interlace_pass_effect [of ra h "0 + length ?A" 8 4] la total by auto
  obtain rc where
    pc: "interlace_pass 4 h 2 (0 + length ?A + length ?B) [0..<h] rb =
           Inr (rc, 0 + length ?A + length ?B + length ?C)"
    and lc: "length rc = h"
    and hc: "\<forall>k<length ?C. rc ! (?C ! k) = 0 + length ?A + length ?B + k"
    and mc: "\<forall>m. m \<notin> set ?C \<longrightarrow> rc ! m = rb ! m"
    using interlace_pass_effect [of rb h "0 + length ?A + length ?B" 4 2] lb total by auto
  obtain rd where
    pd: "interlace_pass 2 h 1 (0 + length ?A + length ?B + length ?C) [0..<h] rc =
           Inr (rd, 0 + length ?A + length ?B + length ?C + length ?D)"
    and ld: "length rd = h"
    and hd: "\<forall>k<length ?D. rd ! (?D ! k) = 0 + length ?A + length ?B + length ?C + k"
    and md: "\<forall>m. m \<notin> set ?D \<longrightarrow> rd ! m = rc ! m"
    using interlace_pass_effect [of rc h "0 + length ?A + length ?B + length ?C" 2 1] lc total
    by auto
  have run: "row_order h True = Inr rd"
    by (simp only: row_order_def if_True Let_def pa pb pc pd sum.case prod.case)
  have at: "rd ! (visit_order h ! k) = k" if "k < h" for k
  proof -
    consider (a) "k < length ?A"
      | (b) "length ?A \<le> k" "k < length ?A + length ?B"
      | (c) "length ?A + length ?B \<le> k" "k < length ?A + length ?B + length ?C"
      | (d) "length ?A + length ?B + length ?C \<le> k"
      by linarith
    then show ?thesis
    proof cases
      case a
      then have e: "visit_order h ! k = ?A ! k" by (simp add: visit_order_def nth_append)
      have "?A ! k \<in> set ?A" using a by simp
      then have "?A ! k \<notin> set ?B" "?A ! k \<notin> set ?C" "?A ! k \<notin> set ?D"
        using pass_rows_disjoint [of h] by blast+
      with mb mc md have "rd ! (?A ! k) = ra ! (?A ! k)" by simp
      with ha a e show ?thesis by simp
    next
      case b
      have i: "k - length ?A < length ?B" using b by simp
      have e: "visit_order h ! k = ?B ! (k - length ?A)"
        using b i by (simp add: visit_order_def nth_append)
      from i have "?B ! (k - length ?A) \<in> set ?B" by simp
      then have "?B ! (k - length ?A) \<notin> set ?C" "?B ! (k - length ?A) \<notin> set ?D"
        using pass_rows_disjoint [of h] by blast+
      with mc md have "rd ! (?B ! (k - length ?A)) = rb ! (?B ! (k - length ?A))" by simp
      with hb i b e show ?thesis by simp
    next
      case c
      have i: "k - length ?A - length ?B < length ?C" using c by simp
      have n: "\<not> k < length ?A" "\<not> k - length ?A < length ?B" using c by simp_all
      have e: "visit_order h ! k = ?C ! (k - length ?A - length ?B)"
        using n i by (simp add: visit_order_def nth_append)
      from i have "?C ! (k - length ?A - length ?B) \<in> set ?C" by simp
      then have "?C ! (k - length ?A - length ?B) \<notin> set ?D"
        using pass_rows_disjoint [of h] by blast
      with md have "rd ! (?C ! (k - length ?A - length ?B)) = rc ! (?C ! (k - length ?A - length ?B))"
        by simp
      with hc i c e show ?thesis by simp
    next
      case d
      have i: "k - length ?A - length ?B - length ?C < length ?D" using d that total by simp
      have n: "\<not> k < length ?A" "\<not> k - length ?A < length ?B"
        "\<not> k - length ?A - length ?B < length ?C" using d by simp_all
      have e: "visit_order h ! k = ?D ! (k - length ?A - length ?B - length ?C)"
        using n by (simp add: visit_order_def nth_append)
      with hd i d show ?thesis by simp
    qed
  qed
  have "map ((!) rd) (visit_order h) = [0..<h]"
    by (rule nth_equalityI) (simp_all add: visit_order_length at)
  with run ld show ?thesis by blast
qed

lemma row_order_8: "row_order 8 True = Inr [0, 4, 2, 5, 1, 6, 3, 7]"
  by code_simp

lemma visit_order_8: "visit_order 8 = [0, 4, 2, 6, 1, 3, 5, 7]"
  by code_simp


text \<open>
  C2, as stated. The claim has output rows 0..7 of an interlaced image of height 8 read the
  source rows 0, 4, 2, 6, 1, 5, 3, 7. The array the code builds is another one.
\<close>

theorem row_order_height_8_counterexample:
  "row_order 8 True \<noteq> Inr [0, 4, 2, 6, 1, 5, 3, 7]"
  by (simp add: row_order_8)


text \<open>
  C2, amended. For an interlaced image of height 8 the output rows 0..7 read the source rows
  0, 4, 2, 5, 1, 6, 3, 7: the four passes visit the output rows in the order
  0, 4, 2, 6, 1, 3, 5, 7, and the k-th output row they visit reads source row k. The latter
  holds for every height. For an image that is not interlaced the mapping is the identity,
  whatever the height.
\<close>

theorem row_order_height_8:
  "row_order 8 True = Inr [0, 4, 2, 5, 1, 6, 3, 7] \<and>
   visit_order 8 = [0, 4, 2, 6, 1, 3, 5, 7] \<and>
   (\<exists>row2. row_order h True = Inr row2 \<and> length row2 = h \<and>
           map ((!) row2) (visit_order h) = [0..<h]) \<and>
   row_order h False = Inr [0..<h]"
proof -
  have "row_order h False = Inr [0..<h]"
    by (simp add: row_order_def)
  then show ?thesis
    using row_order_8 visit_order_8 row_order_interlaced [of h] by blast
qed

subsection \<open>Control defaults and the background\<close>

lemma white: "color_rgba 255 255 255 255 = 0xFFFFFFFF"
  by (simp add: color_rgba_def)

lemma present_and_dispose_control:
  assumes "present_and_dispose cw bk s = Inr s'"
  shows "disposal s' = disposal s \<and> transparent s' = transparent s \<and> block_i s' = block_i s \<and>
         doRender s' = False"
  using assms by (auto simp: present_and_dispose_def split: if_splits sum.splits)

lemma present_and_dispose_idle:
  "\<not> doRender s \<Longrightarrow> present_and_dispose cw bk s = Inr s"
  by (simp add: present_and_dispose_def)

lemma play_iteration_block_i:
  assumes "play_iteration blocks cw bk s = Inr s'"
  shows "block_i s < length blocks \<and> block_i s' = (block_i s + 1) mod length blocks"
  using assms
  by (auto simp: play_iteration_def Let_def split: if_splits GIFBlock.splits sum.splits
      dest!: present_and_dispose_control)

lemma play_iteration_no_control:
  assumes "play_iteration blocks cw bk s = Inr s'"
    and "\<not> is_graphic_control (blocks ! block_i s)"
  shows "disposal s' = disposal s \<and> transparent s' = transparent s"
  using assms
  by (auto simp: play_iteration_def Let_def is_graphic_control_def
      split: if_splits GIFBlock.splits sum.splits dest!: present_and_dispose_control)

lemma play_iteration_no_image:
  assumes "play_iteration blocks cw bk s = Inr s'"
    and "\<not> is_image (blocks ! block_i s)" and "\<not> doRender s"
  shows "pixels s' = pixels s \<and> \<not> doRender s'"
  using assms
  by (auto simp: play_iteration_def Let_def is_image_def present_and_dispose_idle
      split: if_splits GIFBlock.splits sum.splits)

lemma play_iterate_no_control:
  assumes "play_iterate blocks cw bk n s = Inr s'"
    and "block_i s = k mod length blocks"
    and "\<forall>j<n. \<not> is_graphic_control (blocks ! ((k + j) mod length blocks))"
  shows "disposal s' = disposal s \<and> transparent s' = transparent s"
  using assms
proof (induction n arbitrary: s k)
  case 0
  then show ?case by simp
next
  case (Suc n)
  then obtain s1 where s1: "play_iteration blocks cw bk s = Inr s1"
    and r: "play_iterate blocks cw bk n s1 = Inr s'"
    by (auto split: sum.splits)
  from Suc.prems(3) have "\<not> is_graphic_control (blocks ! ((k + 0) mod length blocks))"
    by blast
  then have "\<not> is_graphic_control (blocks ! block_i s)"
    using Suc.prems(2) by simp
  with s1 have keep: "disposal s1 = disposal s \<and> transparent s1 = transparent s"
    by (rule play_iteration_no_control)
  have bi: "block_i s1 = Suc k mod length blocks"
    using play_iteration_block_i [OF s1] Suc.prems(2) by (simp add: mod_Suc_eq)
  have "\<forall>j<n. \<not> is_graphic_control (blocks ! ((Suc k + j) mod length blocks))"
    using Suc.prems(3) by (metis Suc_less_eq add_Suc_shift)
  from Suc.IH [OF r bi this] keep show ?case by simp
qed

lemma play_iterate_no_image:
  assumes "play_iterate blocks cw bk n s = Inr s'"
    and "block_i s = k mod length blocks" and "\<not> doRender s"
    and "\<forall>j<n. \<not> is_image (blocks ! ((k + j) mod length blocks))"
  shows "pixels s' = pixels s"
  using assms
proof (induction n arbitrary: s k)
  case 0
  then show ?case by simp
next
  case (Suc n)
  then obtain s1 where s1: "play_iteration blocks cw bk s = Inr s1"
    and r: "play_iterate blocks cw bk n s1 = Inr s'"
    by (auto split: sum.splits)
  from Suc.prems(4) have "\<not> is_image (blocks ! ((k + 0) mod length blocks))"
    by blast
  then have "\<not> is_image (blocks ! block_i s)"
    using Suc.prems(2) by simp
  with s1 Suc.prems(3) have keep: "pixels s1 = pixels s \<and> \<not> doRender s1"
    by (intro play_iteration_no_image)
  have bi: "block_i s1 = Suc k mod length blocks"
    using play_iteration_block_i [OF s1] Suc.prems(2) by (simp add: mod_Suc_eq)
  have "\<forall>j<n. \<not> is_image (blocks ! ((Suc k + j) mod length blocks))"
    using Suc.prems(4) by (metis Suc_less_eq add_Suc_shift)
  from Suc.IH [OF r bi _ this] keep show ?case by simp
qed


text \<open>
  C4, as stated. The claim has an image that is composited before any graphic control block
  use disposal 0. The loop starts with \<^verbatim>\<open>disposal = 2\<close>: a first image is drawn and its
  rectangle is then filled with the background colour. With disposal 0 in the same state the
  drawn pixel would stay.
\<close>

theorem default_disposal_counterexample:
  "disposal (initial_state 1 1 0xFFFFFFFF) = 2 \<and>
   map_sum id pixels
     (play_iteration [BT_IMAGE black_pixel_image] 1 0xFFFFFFFF (initial_state 1 1 0xFFFFFFFF)) =
     Inr [0xFFFFFFFF] \<and>
   map_sum id pixels
     (play_iteration [BT_IMAGE black_pixel_image] 1 0xFFFFFFFF
        ((initial_state 1 1 0xFFFFFFFF)\<lparr>disposal := 0\<rparr>)) =
     Inr [0xFF000000]"
  by code_simp


text \<open>
  C4, amended. As long as playback has met no graphic control block, the disposal method in
  use is 2 (restore to background) and transparency is off.
\<close>

theorem playback_defaults:
  assumes "\<forall>k<n. \<not> is_graphic_control (blocks ! (k mod length blocks))"
    and "play_iterate blocks canvas_width bkgd_color n
           (initial_state canvas_width canvas_height bkgd_color) = Inr s"
  shows "disposal s = 2 \<and> transparent s = False"
proof -
  have "block_i (initial_state canvas_width canvas_height bkgd_color) = 0 mod length blocks"
    by (simp add: initial_state_def)
  from play_iterate_no_control [OF assms(2) this] assms(1) show ?thesis
    by (simp add: initial_state_def)
qed


lemma first_frame: "play_iterate [BT_IMAGE black_pixel_image] 1 0xFFFFFFFF 1
     (initial_state 1 1 0xFFFFFFFF) = Inr first_frame_state"
  by code_simp

theorem playback_defaults_witness:
  "play_iterate [BT_IMAGE black_pixel_image] 1 0xFFFFFFFF 1 (initial_state 1 1 0xFFFFFFFF) =
     Inr first_frame_state \<and>
   disposal first_frame_state = 2 \<and> transparent first_frame_state = False"
proof -
  have a: "\<forall>k<1. \<not> is_graphic_control
             ([BT_IMAGE black_pixel_image] ! (k mod length [BT_IMAGE black_pixel_image]))"
    by (simp add: is_graphic_control_def)
  from playback_defaults [OF a first_frame] first_frame show ?thesis by simp
qed

text \<open>
  C10. When the global colour table flag is clear, the background colour is opaque white,
  \<^verbatim>\<open>0xFFFFFFFF\<close>, the canvas starts as \<^verbatim>\<open>canvas_width * canvas_height\<close> pixels of it, and it is
  still so after any number of iterations that have met no image.
\<close>

theorem background_without_global_table:
  assumes "\<forall>k<n. \<not> is_image (blocks ! (k mod length blocks))"
    and "playback_start canvas_width canvas_height False gct bkgd_color_idx = Inr (bkgd_color, s0)"
    and "play_iterate blocks canvas_width bkgd_color n s0 = Inr s"
  shows "bkgd_color = color_rgba 255 255 255 255 \<and> bkgd_color = 0xFFFFFFFF \<and>
         pixels s0 = replicate (canvas_width * canvas_height) bkgd_color \<and>
         pixels s = replicate (canvas_width * canvas_height) bkgd_color"
proof -
  from assms(2) have bk: "bkgd_color = color_rgba 255 255 255 255"
    and s0: "s0 = initial_state canvas_width canvas_height bkgd_color"
    by (auto simp: playback_start_def background_color_def)
  have "block_i s0 = 0 mod length blocks" "\<not> doRender s0"
    by (simp_all add: s0 initial_state_def)
  from play_iterate_no_image [OF assms(3) this] assms(1)
  have "pixels s = pixels s0" by simp
  with bk s0 show ?thesis by (simp add: initial_state_def white)
qed


lemma control_seen:
  "play_iterate [BT_GRAPHIC_CONTROL restore_previous_control, BT_IMAGE black_pixel_image]
     1 0xFFFFFFFF 1 (initial_state 1 1 0xFFFFFFFF) = Inr control_seen_state"
  by code_simp

theorem background_without_global_table_witness:
  "playback_start 1 1 False [] 0 = Inr (0xFFFFFFFF, initial_state 1 1 0xFFFFFFFF) \<and>
   play_iterate [BT_GRAPHIC_CONTROL restore_previous_control, BT_IMAGE black_pixel_image]
     1 0xFFFFFFFF 1 (initial_state 1 1 0xFFFFFFFF) = Inr control_seen_state \<and>
   pixels control_seen_state = replicate (1 * 1) 0xFFFFFFFF"
proof -
  let ?blocks = "[BT_GRAPHIC_CONTROL restore_previous_control, BT_IMAGE black_pixel_image]"
  have a: "\<forall>k<1. \<not> is_image (?blocks ! (k mod length ?blocks))"
    by (simp add: is_image_def)
  have c: "playback_start 1 1 False [] 0 = Inr (0xFFFFFFFF, initial_state 1 1 0xFFFFFFFF)"
    by (simp add: playback_start_def background_color_def white)
  from background_without_global_table [OF a c control_seen] c control_seen
  show ?thesis by simp
qed

subsection \<open>Disposal method 3\<close>

text \<open>
  From the second frame on the vector \<^verbatim>\<open>prev\<close> holds the canvas as the last frame's disposal
  left it: every frame ends with \<^verbatim>\<open>prev = pixels\<close>, and the blocks between two images change
  neither. That is the canvas the next image is drawn on, and disposal method 3 then gives
  it back.
\<close>

lemma restore_previous_later_frames:
  assumes "play_iteration blocks cw bk s = Inr s'"
    and "blocks ! block_i s = BT_IMAGE img" and "disposal s = 3"
    and "prev_pixels s = pixels s"
  shows "pixels s' = pixels s"
  using assms
  by (auto simp: play_iteration_def Let_def present_and_dispose_def
      split: if_splits sum.splits)

lemma snapshot_kept:
  assumes "play_iteration blocks cw bk s = Inr s'"
    and "\<not> is_image (blocks ! block_i s)" and "\<not> doRender s"
    and "prev_pixels s = pixels s"
  shows "prev_pixels s' = pixels s' \<and> pixels s' = pixels s \<and> \<not> doRender s'"
  using assms
  by (auto simp: play_iteration_def Let_def is_image_def present_and_dispose_idle
      split: if_splits GIFBlock.splits sum.splits)

lemma snapshot_after_frame:
  assumes "play_iteration blocks cw bk s = Inr s'"
    and "blocks ! block_i s = BT_IMAGE img"
  shows "prev_pixels s' = pixels s'"
  using assms
  by (auto simp: play_iteration_def Let_def present_and_dispose_def
      split: if_splits sum.splits)

text \<open>
  C7, on the code. The claim has disposal method 3 restore the canvas as it was before the
  frame was drawn, the first image included. The file \<open>first_frame_file\<close> has a 1 by 1
  canvas, a graphic control block with disposal method 3 and a 1 by 1 image. The canvas
  before its first image is one white pixel; after the frame it is the empty vector, since
  \<^verbatim>\<open>prev\<close> has not been assigned yet when \<^verbatim>\<open>pixels = prev\<close> runs.
\<close>

theorem restore_previous_first_frame:
  "parse_gif first_frame_file = Inr first_frame_gif \<and>
   playback_start (gif_canvas_width first_frame_gif) (gif_canvas_height first_frame_gif)
     (gif_gct_flag first_frame_gif) (gif_gct first_frame_gif) (gif_bkgd_color_idx first_frame_gif) =
     Inr (0xFFFFFFFF, initial_state 1 1 0xFFFFFFFF) \<and>
   pixels (initial_state 1 1 0xFFFFFFFF) = [0xFFFFFFFF] \<and>
   map_sum id pixels
     (play_iterate (gif_blocks first_frame_gif) 1 0xFFFFFFFF 2 (initial_state 1 1 0xFFFFFFFF)) = Inr []"
  by code_simp

subsection \<open>Transparency and the image rectangle\<close>

lemma store_pixel_other:
  assumes "store_pixel px off v = Inr px1" and "off \<noteq> int k"
  shows "length px1 = length px \<and> px1 ! k = px ! k"
  using assms by (auto simp: store_pixel_def split: if_splits)

lemma draw_pixel_other:
  assumes "draw_pixel img row2 cw tr ti px (y, x) = Inr px1"
    and "\<not> skipped img row2 tr ti y x \<longrightarrow> pixel_offset cw (left img) (top_px img) x y \<noteq> int k"
  shows "length px1 = length px \<and> px1 ! k = px ! k"
proof (cases "skipped img row2 tr ti y x")
  case True
  with assms(1) have "px1 = px"
    by (auto simp: draw_pixel_def skipped_def Let_def split: if_splits)
  then show ?thesis by simp
next
  case False
  with assms(2) have ne: "pixel_offset cw (left img) (top_px img) x y \<noteq> int k" by simp
  from assms(1) False obtain v where
    "store_pixel px (pixel_offset cw (left img) (top_px img) x y) v = Inr px1"
    by (auto simp: draw_pixel_def skipped_def Let_def split: if_splits)
  from store_pixel_other [OF this ne] show ?thesis .
qed

lemma for_each_draw_other:
  assumes "for_each (draw_pixel img row2 cw tr ti) cs px = Inr px'"
    and "\<forall>(y, x) \<in> set cs. \<not> skipped img row2 tr ti y x \<longrightarrow>
           pixel_offset cw (left img) (top_px img) x y \<noteq> int k"
  shows "length px' = length px \<and> px' ! k = px ! k"
  using assms
proof (induction cs arbitrary: px)
  case Nil
  then show ?case by simp
next
  case (Cons c cs)
  obtain y x where c: "c = (y, x)" by (cases c)
  from Cons.prems(1) obtain px1 where
    d: "draw_pixel img row2 cw tr ti px (y, x) = Inr px1"
    and rest: "for_each (draw_pixel img row2 cw tr ti) cs px1 = Inr px'"
    by (auto simp: c split: sum.splits)
  from Cons.prems(2) have
    "\<not> skipped img row2 tr ti y x \<longrightarrow> pixel_offset cw (left img) (top_px img) x y \<noteq> int k"
    by (simp add: c)
  from draw_pixel_other [OF d this] have one: "length px1 = length px \<and> px1 ! k = px ! k" .
  from Cons.prems(2) have
    "\<forall>(y, x) \<in> set cs. \<not> skipped img row2 tr ti y x \<longrightarrow>
           pixel_offset cw (left img) (top_px img) x y \<noteq> int k"
    by simp
  from Cons.IH [OF rest this] one show ?case by simp
qed

lemma set_scan: "set (scan h w) = {(y, x). y < h \<and> x < w}"
  by (auto simp: scan_def)

lemma sint_offset_eq:
  assumes "v < 2 ^ 32" and "sint (word_of_nat v :: 32 word) = int k"
  shows "v = k"
proof -
  let ?w = "word_of_nat v :: 32 word"
  have v: "unat ?w = v"
    using assms(1) by (simp add: unat_of_nat)
  have "sint ?w < 2 ^ (LENGTH(32) - 1)" by (rule sint_lt)
  then have "int k < 2 ^ 32" using assms(2) by simp
  then have "take_bit 32 (int k) = int k"
    by (intro take_bit_int_eq_self) simp_all
  moreover have "uint ?w = take_bit 32 (sint ?w)"
    using uint_sint [of ?w] by simp
  ultimately have "uint ?w = int k" using assms(2) by simp
  then have "int (unat ?w) = int k" by simp
  with v show ?thesis by simp
qed

lemma offset_unique:
  fixes cw :: nat
  assumes "a * cw + c = a' * cw + c'" and "c < cw" and "c' < cw"
  shows "a = a' \<and> c = c'"
proof -
  have "(a * cw + c) div cw = a" "(a' * cw + c') div cw = a'"
    using assms(2,3) by simp_all
  with assms(1) have "a = a'" by simp
  with assms(1) show ?thesis by simp
qed

lemma offset_in_canvas:
  fixes cw ch :: nat
  assumes "lf + x < cw" "tp + y < ch" "cw < 65536" "ch < 65536"
  shows "(tp + y) * cw + (lf + x) < 2 ^ 32"
proof -
  have "(tp + y) * cw + (lf + x) < (tp + y) * cw + cw" using assms(1) by simp
  also have "\<dots> = (tp + y + 1) * cw" by simp
  also have "\<dots> \<le> ch * cw" using assms(2) by (intro mult_le_mono1) simp
  also have "\<dots> \<le> 65536 * 65536" using assms(3,4) by (intro mult_le_mono) simp_all
  finally show ?thesis by simp
qed


text \<open>
  C8, as stated. The claim is about every composited frame. On a canvas one pixel wide, a
  2 by 2 image with transparent index 1 has its pixel \<^verbatim>\<open>(x, y) = (0, 1)\<close> transparent, at
  offset 1; the compositing step still changes the canvas there (from 6 to black), through
  the pixel \<^verbatim>\<open>(1, 0)\<close> of the row above, whose offset is 1 as well.
\<close>

theorem transparent_pixel_counterexample:
  "draw_image overhang_image 1 True 1 [5, 6, 7] = Inr [0xFF000000, 0xFF000000, 0xFF000000] \<and>
   index overhang_image ! (1 * width overhang_image + 0) = unat (1 :: byte) \<and>
   pixel_offset 1 (left overhang_image) (top_px overhang_image) 0 1 = 1"
  by code_simp

text \<open>
  C8, amended. When the image rectangle lies within the canvas (\<open>left + width\<close> at most the
  canvas width, \<open>top + height\<close> at most the canvas height, both canvas sides 16-bit values)
  and compositing runs through: the canvas keeps its size; it is unchanged at the offset of
  every pixel whose index is the transparent index while transparency is on; and it is
  unchanged at every canvas position outside the image rectangle.
\<close>

theorem draw_image_keeps_transparent_and_outside:
  assumes ok: "draw_image img cw tr ti px = Inr px'"
    and ro: "row_order (height img) (interlace img) = Inr row2"
    and fit: "left img + width img \<le> cw" "top_px img + height img \<le> ch"
    and canvas: "cw < 65536" "ch < 65536"
  shows "length px' = length px \<and>
     (\<forall>y<height img. \<forall>x<width img.
         tr \<and> index img ! (row2 ! y * width img + x) = unat ti \<longrightarrow>
         px' ! ((top_px img + y) * cw + (left img + x)) =
         px ! ((top_px img + y) * cw + (left img + x))) \<and>
     (\<forall>cy<ch. \<forall>cx<cw.
         \<not> (left img \<le> cx \<and> cx < left img + width img \<and>
            top_px img \<le> cy \<and> cy < top_px img + height img) \<longrightarrow>
         px' ! (cy * cw + cx) = px ! (cy * cw + cx))"
proof -
  let ?cs = "scan (height img) (width img)"
  from ok ro have fe: "for_each (draw_pixel img row2 cw tr ti) ?cs px = Inr px'"
    by (simp add: draw_image_def)
  have off: "(top_px img + y) * cw + (left img + x) = k"
    if "y < height img" "x < width img"
      and e: "pixel_offset cw (left img) (top_px img) x y = int k" for x y k
  proof -
    have "(top_px img + y) * cw + (left img + x) < 2 ^ 32"
      using offset_in_canvas [of "left img" x cw "top_px img" y ch] that(1,2) fit canvas
      by simp
    from sint_offset_eq [OF this] e show ?thesis by (simp add: pixel_offset_def)
  qed
  have untouched: "length px' = length px \<and> px' ! k = px ! k"
    if "\<And>y x. y < height img \<Longrightarrow> x < width img \<Longrightarrow> \<not> skipped img row2 tr ti y x \<Longrightarrow>
          (top_px img + y) * cw + (left img + x) \<noteq> k" for k
  proof (rule for_each_draw_other [OF fe])
    show "\<forall>(y, x) \<in> set ?cs. \<not> skipped img row2 tr ti y x \<longrightarrow>
            pixel_offset cw (left img) (top_px img) x y \<noteq> int k"
    proof (clarsimp simp: set_scan)
      fix y x
      assume a: "y < height img" "x < width img" "\<not> skipped img row2 tr ti y x"
        and e: "pixel_offset cw (left img) (top_px img) x y = int k"
      from off [OF a(1,2) e] that [OF a] show False by simp
    qed
  qed
  have len: "length px' = length px"
  proof (cases "\<exists>c. c \<in> set ?cs")
    case False
    then have "?cs = []" by (cases ?cs) auto
    with fe show ?thesis by simp
  next
    case True
    have "length px' = length px \<and> px' ! (cw * ch) = px ! (cw * ch)"
    proof (rule untouched)
      fix y x assume yx: "y < height img" "x < width img"
      have "(top_px img + y) * cw + (left img + x) < (top_px img + y) * cw + cw"
        using yx fit by simp
      also have "\<dots> = (top_px img + y + 1) * cw" by simp
      also have "\<dots> \<le> ch * cw" using yx fit by (intro mult_le_mono1) simp
      finally show "(top_px img + y) * cw + (left img + x) \<noteq> cw * ch"
        by (simp add: mult.commute)
    qed
    then show ?thesis by simp
  qed
  have transp: "px' ! ((top_px img + y0) * cw + (left img + x0)) =
                px ! ((top_px img + y0) * cw + (left img + x0))"
    if "y0 < height img" "x0 < width img" "skipped img row2 tr ti y0 x0" for y0 x0
  proof -
    have "length px' = length px \<and>
          px' ! ((top_px img + y0) * cw + (left img + x0)) =
          px ! ((top_px img + y0) * cw + (left img + x0))"
    proof (rule untouched)
      fix y x assume yx: "y < height img" "x < width img" "\<not> skipped img row2 tr ti y x"
      show "(top_px img + y) * cw + (left img + x) \<noteq> (top_px img + y0) * cw + (left img + x0)"
      proof
        assume e: "(top_px img + y) * cw + (left img + x) = (top_px img + y0) * cw + (left img + x0)"
        have "left img + x < cw" "left img + x0 < cw"
          using yx(2) that(2) fit(1) by simp_all
        from offset_unique [OF e this]
        have "top_px img + y = top_px img + y0 \<and> left img + x = left img + x0" .
        with yx(3) that(3) show False by simp
      qed
    qed
    then show ?thesis by simp
  qed
  have outside: "px' ! (cy * cw + cx) = px ! (cy * cw + cx)"
    if "cx < cw"
      and out: "\<not> (left img \<le> cx \<and> cx < left img + width img \<and>
                   top_px img \<le> cy \<and> cy < top_px img + height img)" for cy cx
  proof -
    have "length px' = length px \<and> px' ! (cy * cw + cx) = px ! (cy * cw + cx)"
    proof (rule untouched)
      fix y x assume yx: "y < height img" "x < width img"
      show "(top_px img + y) * cw + (left img + x) \<noteq> cy * cw + cx"
      proof
        assume e: "(top_px img + y) * cw + (left img + x) = cy * cw + cx"
        have "left img + x < cw" using yx(2) fit(1) by simp
        from offset_unique [OF e this that(1)]
        have "top_px img + y = cy \<and> left img + x = cx" .
        with yx out show False by auto
      qed
    qed
    then show ?thesis by simp
  qed
  show ?thesis
    using len transp outside by (simp add: skipped_def)
qed

lemma overhang_row_order: "row_order (height overhang_image) (interlace overhang_image) = Inr [0, 1]"
  by code_simp

lemma overhang_draw:
  "draw_image overhang_image 2 True 1 [5, 6, 7, 8] = Inr [0xFF000000, 0xFF000000, 7, 0xFF000000]"
  by code_simp

theorem draw_image_keeps_transparent_and_outside_witness:
  "draw_image overhang_image 2 True 1 [5, 6, 7, 8] = Inr [0xFF000000, 0xFF000000, 7, 0xFF000000] \<and>
   index overhang_image ! ([0, 1] ! 1 * width overhang_image + 0) = unat (1 :: byte) \<and>
   [0xFF000000, 0xFF000000, 7, 0xFF000000] ! 2 = [5, 6, 7, 8 :: 32 word] ! 2"
proof -
  have fit: "left overhang_image + width overhang_image \<le> 2"
    "top_px overhang_image + height overhang_image \<le> 2"
    by (simp_all add: overhang_image_def)
  have canvas: "(2::nat) < 65536" by simp
  have ix: "index overhang_image ! ([0, 1] ! 1 * width overhang_image + 0) = unat (1 :: byte)"
    by (simp add: overhang_image_def)
  have "\<forall>y<height overhang_image. \<forall>x<width overhang_image.
         True \<and> index overhang_image ! ([0, 1] ! y * width overhang_image + x) = unat (1 :: byte) \<longrightarrow>
         [0xFF000000, 0xFF000000, 7, 0xFF000000] !
           ((top_px overhang_image + y) * 2 + (left overhang_image + x)) =
         [5, 6, 7, 8 :: 32 word] ! ((top_px overhang_image + y) * 2 + (left overhang_image + x))"
    using draw_image_keeps_transparent_and_outside
      [OF overhang_draw overhang_row_order fit canvas canvas] by blast
  from this [rule_format, of 1 0] ix
  have "[0xFF000000, 0xFF000000, 7, 0xFF000000] ! 2 = [5, 6, 7, 8 :: 32 word] ! 2"
    by (simp add: overhang_image_def)
  with overhang_draw ix show ?thesis by blast
qed



end
